theory Spec2Isabelle
  imports
    Main
    "HOL-Library.Word"
    "HOL-Library.Char_ord"
    "HOL-Library.List_Lexorder"
    "HOL-Library.Monad_Syntax"
begin

unbundle bit_operations_syntax

section \<open>Shared runtime model\<close>

text \<open>
  Both tools are command-line programs. A run either returns from \<open>main\<close> (or calls
  \<open>exit\<close>) with some text on standard output, some text on standard error and a status, or
  it is ended by an exception nobody catches (\<open>std::stoi\<close> and \<open>std::stoul\<close> throw, and neither
  source file has a \<open>try\<close> block).
\<close>

datatype exn = Invalid_argument | Out_of_range

record proc =
  cout :: string
  cerr :: string
  ret :: int

type_synonym run = "exn + proc"

definition endl :: string where
  "endl = [CHR 0x0A]"

definition dq :: char where
  "dq = CHR 0x22"

definition bs :: char where
  "bs = CHR 0x5C"

definition quoted :: "string \<Rightarrow> string" where
  "quoted s = [dq] @ s @ [dq]"

definition ok :: "string \<Rightarrow> run" where
  "ok text = Inr \<lparr>cout = text, cerr = [], ret = 0\<rparr>"

definition fail :: "string \<Rightarrow> run" where
  "fail msg = Inr \<lparr>cout = [], cerr = msg @ endl, ret = 1\<rparr>"

definition isspace :: "char \<Rightarrow> bool" where
  "isspace c = (c = CHR 0x20 \<or> (9 \<le> (of_char c :: nat) \<and> (of_char c :: nat) \<le> 13))"

definition is_upper :: "char \<Rightarrow> bool" where
  "is_upper c = (65 \<le> (of_char c :: nat) \<and> (of_char c :: nat) \<le> 90)"

definition is_lower :: "char \<Rightarrow> bool" where
  "is_lower c = (97 \<le> (of_char c :: nat) \<and> (of_char c :: nat) \<le> 122)"

definition is_digit :: "char \<Rightarrow> bool" where
  "is_digit c = (48 \<le> (of_char c :: nat) \<and> (of_char c :: nat) \<le> 57)"

text \<open>Digit characters of the two output bases, and the digit list of a number.\<close>

definition digit_char :: "nat \<Rightarrow> char" where
  "digit_char d = (''0123456789abcdef'' ! d)"

function digits_of :: "nat \<Rightarrow> nat \<Rightarrow> string" where
  "digits_of b n =
     (if b < 2 \<or> n < b then [digit_char n]
      else digits_of b (n div b) @ [digit_char (n mod b)])"
  by pat_completeness auto
termination
  by (relation "measure (\<lambda>(b, n). n)") auto

declare digits_of.simps [simp del]

text \<open>\<open>std::to_string\<close> and \<open>operator<<\<close> on an unsigned value; \<open>std::hex\<close> output.\<close>

definition to_string :: "nat \<Rightarrow> string" where
  "to_string n = digits_of 10 n"

definition to_hex :: "nat \<Rightarrow> string" where
  "to_hex n = digits_of 16 n"

text \<open>\<open>operator<<\<close> on an \<open>int\<close>.\<close>

definition show_int :: "int \<Rightarrow> string" where
  "show_int i = (if i < 0 then ''-'' @ to_string (nat (- i)) else to_string (nat i))"

text \<open>The value of a string of digits in a base (digits may be of either case).\<close>

definition digit_val :: "char \<Rightarrow> nat" where
  "digit_val c =
     (let n = (of_char c :: nat) in
      if 48 \<le> n \<and> n \<le> 57 then n - 48
      else if 97 \<le> n \<and> n \<le> 122 then n - 87
      else if 65 \<le> n \<and> n \<le> 90 then n - 55
      else 36)"

definition digits_value :: "nat \<Rightarrow> string \<Rightarrow> nat" where
  "digits_value b ds = foldl (\<lambda>acc c. b * acc + digit_val c) 0 ds"

section \<open>Register query tool (query\_register.cpp)\<close>

text \<open>
  Modelled from the spec: the header \<open>register_data.h\<close> is generated and not part of the
  sources. It declares the field and register structs and the two tables
  \<open>REGISTER_DATABASE\<close> and \<open>DEFINITION_TO_FIELDS\<close>. The records below hold the members the
  code reads (the member \<open>fields\<close> of a register is \<open>reg_fields\<close> here); the two tables are
  parameters of every function that reads them.
\<close>

record RegisterField =
  field_name :: string
  field_msb :: int
  field_lsb :: int
  field_position :: string
  field_definition :: string

record Register =
  feature_name :: string
  reg_fields :: "RegisterField list"

type_synonym register_database = "string \<rightharpoonup> Register"
type_synonym definition_to_fields = "string \<rightharpoonup> (string \<times> string) list"

definition ALLOWED_DEFS :: "string set" where
  "ALLOWED_DEFS = {''RES0'', ''RES1'', ''UNPREDICTABLE'', ''UNDEFINED'', ''RAO'', ''UNKNOWN''}"

definition escape_char :: "char \<Rightarrow> string" where
  "escape_char c =
     (if c = dq then [bs, dq]
      else if c = bs then [bs, bs]
      else if c = CHR 0x08 then [bs] @ ''b''
      else if c = CHR 0x0C then [bs] @ ''f''
      else if c = CHR 0x0A then [bs] @ ''n''
      else if c = CHR 0x0D then [bs] @ ''r''
      else if c = CHR 0x09 then [bs] @ ''t''
      else if (of_char c :: nat) < 0x20 then [bs] @ ''u'' @ to_hex (of_char c)
      else [c])"

definition escape_json :: "string \<Rightarrow> string" where
  "escape_json s = concat (map escape_char s)"

text \<open>
  Joining the rendered entries with a separator, as each loop guarded by \<open>first\<close> or
  \<open>i > 0\<close> does.
\<close>

fun join :: "string \<Rightarrow> string list \<Rightarrow> string" where
  "join sep [] = []"
| "join sep [x] = x"
| "join sep (x # y # ys) = x @ sep @ join sep (y # ys)"

definition run_fielddef_query :: "definition_to_fields \<Rightarrow> string \<Rightarrow> bool \<Rightarrow> run" where
  "run_fielddef_query DEFINITION_TO_FIELDS def json_out =
     (case DEFINITION_TO_FIELDS def of
        None \<Rightarrow> fail (''Error: No fields found with definition '' @ [CHR 0x27] @ def @ [CHR 0x27])
      | Some entries \<Rightarrow>
          if json_out then
            ok (''['' @
                join ('','' @ endl)
                  (map (\<lambda>entry. ''{'' @ quoted ''register_name'' @ '':'' @ quoted (escape_json (fst entry))
                          @ '','' @ quoted ''field_name'' @ '':'' @ quoted (escape_json (snd entry)) @ ''}'')
                     entries)
                @ '']'' @ endl)
          else
            ok (concat (map (\<lambda>entry. fst entry @ ''.'' @ snd entry @ endl) entries)))"

subsection \<open>The three regular expressions\<close>

text \<open>
  The character classes \<open>[A-Z0-9_<>]\<close>, \<open>[A-Z0-9_]\<close> and \<open>\d\<close>. In each of the three
  expressions, what follows a repeated class is a literal character outside that class (or
  the end of the input), so the longest run of class characters is the only way to match and
  the matcher below needs no backtracking.
\<close>

definition reg_char :: "char \<Rightarrow> bool" where
  "reg_char c = (is_upper c \<or> is_digit c \<or> c = CHR ''_'' \<or> c = CHR ''<'' \<or> c = CHR ''>'')"

definition field_char :: "char \<Rightarrow> bool" where
  "field_char c = (is_upper c \<or> is_digit c \<or> c = CHR ''_'')"

text \<open>One or more characters of a class: the run and the rest of the input.\<close>

definition many1 :: "(char \<Rightarrow> bool) \<Rightarrow> string \<Rightarrow> (string \<times> string) option" where
  "many1 p s = (if takeWhile p s = [] then None else Some (takeWhile p s, dropWhile p s))"

text \<open>
  The tail \<open>\[(\d+)(?::(\d+))?\]$\<close> shared by two of the expressions: the first number and
  the optional second one.
\<close>

definition match_range :: "string \<Rightarrow> (string \<times> string option) option" where
  "match_range s =
     (case s of
        [] \<Rightarrow> None
      | c # s1 \<Rightarrow>
          if c \<noteq> CHR ''['' then None
          else (case many1 is_digit s1 of
                  None \<Rightarrow> None
                | Some (hi, s2) \<Rightarrow>
                    if s2 = '']'' then Some (hi, None)
                    else (case s2 of
                            [] \<Rightarrow> None
                          | c2 # s3 \<Rightarrow>
                              if c2 \<noteq> CHR '':'' then None
                              else (case many1 is_digit s3 of
                                      None \<Rightarrow> None
                                    | Some (lo, s4) \<Rightarrow>
                                        if s4 = '']'' then Some (hi, Some lo) else None))))"

text \<open>\<open>^([A-Z0-9_<>]+)\.([A-Z0-9_]+)\[(\d+)(?::(\d+))?\]$\<close>, giving groups 1 to 4.\<close>

definition dot_bracket :: "string \<Rightarrow> (string \<times> string \<times> string \<times> string option) option" where
  "dot_bracket q =
     (case many1 reg_char q of
        None \<Rightarrow> None
      | Some (reg, s1) \<Rightarrow>
          (case s1 of
             [] \<Rightarrow> None
           | c # s2 \<Rightarrow>
               if c \<noteq> CHR ''.'' then None
               else (case many1 field_char s2 of
                       None \<Rightarrow> None
                     | Some (field, s3) \<Rightarrow>
                         (case match_range s3 of
                            None \<Rightarrow> None
                          | Some (hi, lo) \<Rightarrow> Some (reg, field, hi, lo)))))"

text \<open>\<open>^([A-Z0-9_<>]+)\.([A-Z0-9_]+)$\<close>, giving groups 1 and 2.\<close>

definition dot_only :: "string \<Rightarrow> (string \<times> string) option" where
  "dot_only q =
     (case many1 reg_char q of
        None \<Rightarrow> None
      | Some (reg, s1) \<Rightarrow>
          (case s1 of
             [] \<Rightarrow> None
           | c # s2 \<Rightarrow>
               if c \<noteq> CHR ''.'' then None
               else (case many1 field_char s2 of
                       None \<Rightarrow> None
                     | Some (field, s3) \<Rightarrow> if s3 = [] then Some (reg, field) else None)))"

text \<open>
  \<open>^([A-Z0-9_<>]+)(?:\[(\d+)(?::(\d+))?\])?$\<close>, giving group 1 and, when the bracket part
  is there, groups 2 and 3.
\<close>

definition bracket :: "string \<Rightarrow> (string \<times> (string \<times> string option) option) option" where
  "bracket q =
     (case many1 reg_char q of
        None \<Rightarrow> None
      | Some (reg, s1) \<Rightarrow>
          if s1 = [] then Some (reg, None)
          else (case match_range s1 of
                  None \<Rightarrow> None
                | Some r \<Rightarrow> Some (reg, Some r)))"

text \<open>The characters that can occur in an input matched by one of the three expressions.\<close>

definition query_char :: "char \<Rightarrow> bool" where
  "query_char c = (reg_char c \<or> c = CHR ''.'' \<or> c = CHR ''['' \<or> c = CHR '':'' \<or> c = CHR '']'')"

subsection \<open>The query\<close>

text \<open>
  \<open>std::stoi\<close> on a capture of \<open>\d+\<close>: the value, or \<open>std::out_of_range\<close> when it does not
  fit a 32-bit \<open>int\<close>.
\<close>

definition stoi :: "string \<Rightarrow> exn + int" where
  "stoi ds = (if digits_value 10 ds > 2147483647 then Inl Out_of_range else Inr (int (digits_value 10 ds)))"

definition trim :: "string \<Rightarrow> string" where
  "trim q = rev (dropWhile isspace (rev (dropWhile isspace q)))"

text \<open>The two numbers of a bracket: \<open>high\<close>, and \<open>low\<close> (which is \<open>high\<close> when absent).\<close>

definition high_low :: "string \<Rightarrow> string option \<Rightarrow> exn + (int \<times> int)" where
  "high_low hi lo =
     (case stoi hi of
        Inl e \<Rightarrow> Inl e
      | Inr high \<Rightarrow>
          (case lo of
             None \<Rightarrow> Inr (high, high)
           | Some l \<Rightarrow> (case stoi l of Inl e \<Rightarrow> Inl e | Inr low \<Rightarrow> Inr (high, low))))"

definition register_not_found :: "string \<Rightarrow> run" where
  "register_not_found reg =
     fail (''Error: Register '' @ [CHR 0x27] @ reg @ [CHR 0x27] @ '' not found in database.'')"

definition pos_name_entry :: "RegisterField \<Rightarrow> string" where
  "pos_name_entry fld =
     ''{'' @ quoted ''name'' @ '':'' @ quoted (escape_json (field_name fld)) @ '',''
       @ quoted ''position'' @ '':'' @ quoted (escape_json (field_position fld)) @ ''}''"

definition pos_name_line :: "RegisterField \<Rightarrow> string" where
  "pos_name_line fld = ''  '' @ field_position fld @ ''  '' @ field_name fld @ endl"

text \<open>The one diagnostic of the \<open>dot_bracket\<close> branch for a known register.\<close>

definition not_at_range_or_not_found :: "string \<Rightarrow> int \<Rightarrow> int \<Rightarrow> string" where
  "not_at_range_or_not_found field start end =
     ''Error: Field '' @ [CHR 0x27] @ field @ [CHR 0x27]
     @ '' exists but not at bit range ['' @ show_int end @ '':'' @ show_int start
     @ ''] or not found.''"

text \<open>The branch taken when \<open>dot_bracket\<close> matches.\<close>

definition query_field_range ::
  "register_database \<Rightarrow> bool \<Rightarrow> string \<Rightarrow> string \<Rightarrow> string \<Rightarrow> string option \<Rightarrow> run" where
  "query_field_range REGISTER_DATABASE json_out reg field hi lo =
     (case high_low hi lo of
        Inl e \<Rightarrow> Inl e
      | Inr (high, low) \<Rightarrow>
          (let start = min high low; end = max high low in
           case REGISTER_DATABASE reg of
             None \<Rightarrow> register_not_found reg
           | Some r \<Rightarrow>
               (case find (\<lambda>fld. field_name fld = field \<and> field_msb fld = end \<and> field_lsb fld = start)
                       (reg_fields r) of
                  Some fld \<Rightarrow>
                    if json_out then
                      ok (''{'' @ quoted ''register_name'' @ '':'' @ quoted (escape_json reg) @ '',''
                          @ quoted ''field_name'' @ '':'' @ quoted (escape_json field) @ '',''
                          @ quoted ''field_position'' @ '':'' @ quoted (escape_json (field_position fld)) @ '',''
                          @ quoted ''field_definition'' @ '':'' @ quoted (escape_json (field_definition fld))
                          @ ''}'' @ endl)
                    else
                      ok (''Register: '' @ reg @ endl
                          @ ''Field Name: '' @ field @ endl
                          @ ''Field Position: '' @ field_position fld @ endl)
                | None \<Rightarrow> fail (not_at_range_or_not_found field start end))))"

text \<open>The branch taken when \<open>dot_only\<close> matches.\<close>

definition query_field_name :: "register_database \<Rightarrow> bool \<Rightarrow> string \<Rightarrow> string \<Rightarrow> run" where
  "query_field_name REGISTER_DATABASE json_out reg field =
     (case REGISTER_DATABASE reg of
        None \<Rightarrow> register_not_found reg
      | Some r \<Rightarrow>
          (case find (\<lambda>fld. field_name fld = field) (reg_fields r) of
             None \<Rightarrow>
               fail (''Error: Field '' @ [CHR 0x27] @ field @ [CHR 0x27] @ '' not found in register ''
                     @ [CHR 0x27] @ reg @ [CHR 0x27])
           | Some found_field \<Rightarrow>
               if json_out then
                 ok (''{'' @ quoted ''register_name'' @ '':'' @ quoted (escape_json reg) @ '',''
                     @ quoted ''field_name'' @ '':'' @ quoted (escape_json field) @ '',''
                     @ quoted ''field_position'' @ '':'' @ quoted (escape_json (field_position found_field))
                     @ ''}'' @ endl)
               else
                 ok (''Register: '' @ reg @ endl
                     @ ''Field Name: '' @ field @ endl
                     @ ''Field Position: '' @ field_position found_field @ endl)))"

text \<open>The loop that fills \<open>matching_fields\<close>: one \<open>push_back\<close> for each field that overlaps.\<close>

fun collect_matching :: "int \<Rightarrow> int \<Rightarrow> RegisterField list \<Rightarrow> RegisterField list \<Rightarrow> RegisterField list" where
  "collect_matching start end [] matching_fields = matching_fields"
| "collect_matching start end (fld # rest) matching_fields =
     collect_matching start end rest
       (if field_lsb fld \<le> end \<and> field_msb fld \<ge> start then matching_fields @ [fld] else matching_fields)"

text \<open>What the bit-range branch prints for a single bit and for a range.\<close>

definition single_bit_output :: "bool \<Rightarrow> string \<Rightarrow> int \<Rightarrow> RegisterField list \<Rightarrow> string" where
  "single_bit_output json_out reg start matching_fields =
     (if json_out then
        ''{'' @ quoted ''register_name'' @ '':'' @ quoted (escape_json reg) @ '',''
        @ quoted ''bit_position'' @ '':'' @ quoted (show_int start) @ '',''
        @ quoted ''field_name'' @ '':'' @ quoted (escape_json (field_name (hd matching_fields)))
        @ '','' @ quoted ''field_position'' @ '':''
        @ quoted (escape_json (field_position (hd matching_fields))) @ ''}'' @ endl
      else
        ''Register: '' @ reg @ endl
        @ ''Bit Position: ['' @ show_int start @ '']'' @ endl
        @ ''Field Name: '' @ field_name (hd matching_fields) @ endl)"

definition range_output :: "bool \<Rightarrow> string \<Rightarrow> int \<Rightarrow> int \<Rightarrow> RegisterField list \<Rightarrow> string" where
  "range_output json_out reg start end matching_fields =
     (if json_out then
        ''{'' @ quoted ''register_name'' @ '':'' @ quoted (escape_json reg) @ '',''
        @ quoted ''bit_start'' @ '':'' @ quoted (show_int start) @ '',''
        @ quoted ''bit_end'' @ '':'' @ quoted (show_int end) @ '',''
        @ quoted ''fields'' @ '': ['' @ join '','' (map pos_name_entry matching_fields)
        @ '']}'' @ endl
      else
        ''Register: '' @ reg @ endl
        @ ''Bit Range: ['' @ show_int end @ '':'' @ show_int start @ '']'' @ endl
        @ concat (map pos_name_line matching_fields))"

definition no_fields_in_range :: "string \<Rightarrow> int \<Rightarrow> int \<Rightarrow> string" where
  "no_fields_in_range reg start end =
     ''Error: No fields found for bit range ['' @ show_int end @ '':'' @ show_int start
     @ ''] in register '' @ [CHR 0x27] @ reg @ [CHR 0x27]"

text \<open>The branch taken when \<open>bracket\<close> matches with its bracket part.\<close>

definition query_bit_range ::
  "register_database \<Rightarrow> bool \<Rightarrow> string \<Rightarrow> string \<Rightarrow> string option \<Rightarrow> run" where
  "query_bit_range REGISTER_DATABASE json_out reg hi lo =
     (case high_low hi lo of
        Inl e \<Rightarrow> Inl e
      | Inr (high, low) \<Rightarrow>
          (let start = min high low; end = max high low in
           case REGISTER_DATABASE reg of
             None \<Rightarrow> register_not_found reg
           | Some r \<Rightarrow>
               (let matching_fields = collect_matching start end (reg_fields r) [] in
                if matching_fields = [] then fail (no_fields_in_range reg start end)
                else if start = end then ok (single_bit_output json_out reg start matching_fields)
                else ok (range_output json_out reg start end matching_fields))))"

text \<open>The branch taken when \<open>bracket\<close> matches without a bracket part: the entire register.\<close>

definition query_register :: "register_database \<Rightarrow> bool \<Rightarrow> string \<Rightarrow> run" where
  "query_register REGISTER_DATABASE json_out reg =
     (case REGISTER_DATABASE reg of
        None \<Rightarrow> register_not_found reg
      | Some r \<Rightarrow>
          if json_out then
            ok (''{'' @ quoted ''register_name'' @ '':'' @ quoted (escape_json reg) @ '',''
                @ quoted ''features'' @ '':'' @ quoted (escape_json (feature_name r)) @ '',''
                @ quoted ''fields'' @ '': ['' @ join '','' (map pos_name_entry (reg_fields r))
                @ '']}'' @ endl)
          else
            ok (''Register: '' @ reg @ endl
                @ ''Features: '' @ feature_name r @ endl
                @ ''Fields:'' @ endl
                @ concat (map pos_name_line (reg_fields r))))"

definition invalid_query :: "string \<Rightarrow> run" where
  "invalid_query query = fail (''Error: Invalid query format: '' @ [CHR 0x27] @ query @ [CHR 0x27])"

definition run_register_query ::
  "register_database \<Rightarrow> definition_to_fields \<Rightarrow> string \<Rightarrow> bool \<Rightarrow> run" where
  "run_register_query REGISTER_DATABASE DEFINITION_TO_FIELDS query json_out =
     (let q = trim query in
      if q \<in> ALLOWED_DEFS then run_fielddef_query DEFINITION_TO_FIELDS q json_out
      else
        (case dot_bracket q of
           Some (reg, field, hi, lo) \<Rightarrow> query_field_range REGISTER_DATABASE json_out reg field hi lo
         | None \<Rightarrow>
             (case dot_only q of
                Some (reg, field) \<Rightarrow> query_field_name REGISTER_DATABASE json_out reg field
              | None \<Rightarrow>
                  (case bracket q of
                     Some (reg, Some (hi, lo)) \<Rightarrow> query_bit_range REGISTER_DATABASE json_out reg hi lo
                   | Some (reg, None) \<Rightarrow> query_register REGISTER_DATABASE json_out reg
                   | None \<Rightarrow> invalid_query query))))"

subsection \<open>Well-formed queries and example tables\<close>

text \<open>
  The tokens of the query grammar, used to state properties of whole classes of queries: a
  register token, a field token, a number, and the text of a bracket part with one or two
  numbers.
\<close>

definition reg_token :: "string \<Rightarrow> bool" where
  "reg_token s = (s \<noteq> [] \<and> list_all reg_char s)"

definition field_token :: "string \<Rightarrow> bool" where
  "field_token s = (s \<noteq> [] \<and> list_all field_char s)"

definition number :: "string \<Rightarrow> bool" where
  "number s = (s \<noteq> [] \<and> list_all is_digit s)"

definition opt_number :: "string option \<Rightarrow> bool" where
  "opt_number lo = (case lo of None \<Rightarrow> True | Some l \<Rightarrow> number l)"

definition range_text :: "string \<Rightarrow> string option \<Rightarrow> string" where
  "range_text hi lo = ''['' @ hi @ (case lo of None \<Rightarrow> [] | Some l \<Rightarrow> '':'' @ l) @ '']''"

text \<open>A number that \<open>std::stoi\<close> accepts, and its value.\<close>

definition fits_int :: "string \<Rightarrow> bool" where
  "fits_int s = (digits_value 10 s \<le> 2147483647)"

definition int_of :: "string \<Rightarrow> int" where
  "int_of s = int (digits_value 10 s)"

definition opt_fits_int :: "string option \<Rightarrow> bool" where
  "opt_fits_int lo = (case lo of None \<Rightarrow> True | Some l \<Rightarrow> fits_int l)"

text \<open>The second endpoint of a bracket part: the first one again when only one is written.\<close>

definition low_of :: "string \<Rightarrow> string option \<Rightarrow> int" where
  "low_of hi lo = (case lo of None \<Rightarrow> int_of hi | Some l \<Rightarrow> int_of l)"

text \<open>The overlap test of the bit-range branch.\<close>

definition overlaps :: "int \<Rightarrow> int \<Rightarrow> RegisterField \<Rightarrow> bool" where
  "overlaps start end fld = (field_lsb fld \<le> end \<and> field_msb fld \<ge> start)"

text \<open>
  A small register table in the shape the generator produces (fields by descending most
  significant bit), a variant of it whose register has no field named SWIO, and a register
  with two fields that share bits.
\<close>

definition mk_field :: "string \<Rightarrow> int \<Rightarrow> int \<Rightarrow> string \<Rightarrow> RegisterField" where
  "mk_field name msb lsb def =
     \<lparr>field_name = name, field_msb = msb, field_lsb = lsb,
      field_position = ''['' @ show_int msb @ '':'' @ show_int lsb @ '']'',
      field_definition = def\<rparr>"

definition example_database :: register_database where
  "example_database =
     [''HCR_EL2'' \<mapsto>
        \<lparr>feature_name = ''FEAT_AA64'',
         reg_fields = [mk_field ''TGE'' 27 27 [], mk_field ''SWIO'' 1 1 [], mk_field ''VM'' 0 0 []]\<rparr>]"

definition example_database_no_swio :: register_database where
  "example_database_no_swio =
     [''HCR_EL2'' \<mapsto>
        \<lparr>feature_name = ''FEAT_AA64'',
         reg_fields = [mk_field ''TGE'' 27 27 [], mk_field ''VM'' 0 0 []]\<rparr>]"

definition example_database_shared_bits :: register_database where
  "example_database_shared_bits =
     [''EXAMPLE_EL1'' \<mapsto>
        \<lparr>feature_name = ''FEAT_AA64'',
         reg_fields = [mk_field ''RES0'' 31 16 ''RES0'', mk_field ''WIDE'' 15 0 [],
                       mk_field ''NARROW'' 9 0 []]\<rparr>]"

section \<open>Opcode decoder (query\_isa.cpp)\<close>

type_synonym u32 = "32 word"

text \<open>
  Modelled from the spec: the header \<open>encoding_data.h\<close> and the ten generated tables
  \<open>ENCODINGS_0\<close> to \<open>ENCODINGS_9\<close> are not part of the sources. The record below holds
  the four members the code reads (\<open>bit_fields\<close> is a C array of 32 strings, most
  significant bit first); the tables are a parameter of every function that scans them.
\<close>

record EncodingPattern =
  fixed_mask :: u32
  fixed_bits :: u32
  bit_fields :: "string list"
  asm_template :: string

subsection \<open>Parsing the opcode\<close>

text \<open>
  \<open>std::stoul(str, nullptr, base)\<close>, that is \<open>strtoul\<close>: leading white space is skipped, a
  sign is accepted, in base 16 a \<open>0x\<close> prefix before a hex digit is accepted, then the longest
  run of digits of the base is read and everything after it is ignored. No digit at all throws
  \<open>std::invalid_argument\<close>; a value above \<open>ULONG_MAX\<close> throws \<open>std::out_of_range\<close>.
  \<open>unsigned long\<close> has 64 bits on the Linux targets the build instructions name.
\<close>

definition ULONG_MAX :: nat where
  "ULONG_MAX = 2 ^ 64 - 1"

definition has_hex_prefix :: "string \<Rightarrow> bool" where
  "has_hex_prefix s =
     (case s of
        c0 # c1 # c2 # _ \<Rightarrow> c0 = CHR ''0'' \<and> (c1 = CHR ''x'' \<or> c1 = CHR ''X'') \<and> digit_val c2 < 16
      | _ \<Rightarrow> False)"

definition stoul :: "string \<Rightarrow> nat \<Rightarrow> exn + nat" where
  "stoul str base =
     (let s1 = dropWhile isspace str;
          neg = (s1 \<noteq> [] \<and> hd s1 = CHR ''-'');
          s2 = (if s1 \<noteq> [] \<and> (hd s1 = CHR ''-'' \<or> hd s1 = CHR ''+'') then tl s1 else s1);
          s3 = (if base = 16 \<and> has_hex_prefix s2 then drop 2 s2 else s2);
          ds = takeWhile (\<lambda>c. digit_val c < base) s3
      in if ds = [] then Inl Invalid_argument
         else if digits_value base ds > ULONG_MAX then Inl Out_of_range
         else Inr (if neg then (2 ^ 64 - digits_value base ds) mod 2 ^ 64 else digits_value base ds))"

text \<open>
  \<open>parse_opcode\<close> either returns the value, or ends the run: by \<open>exit(1)\<close> after its
  diagnostic, or by an exception of \<open>std::stoul\<close>. The assignment to \<open>uint32_t value\<close> keeps
  the low 32 bits.
\<close>

definition parse_opcode :: "string \<Rightarrow> run + u32" where
  "parse_opcode opcode_str =
     (let cleaned = filter (\<lambda>c. c \<noteq> CHR ''_'' \<and> c \<noteq> CHR '':'') opcode_str in
      if take 2 cleaned = ''0x'' \<or> take 2 cleaned = ''0X'' then
        (case stoul (drop 2 cleaned) 16 of Inl e \<Rightarrow> Inl (Inl e) | Inr v \<Rightarrow> Inr (of_nat v))
      else if take 2 cleaned = ''0b'' \<or> take 2 cleaned = ''0B'' then
        (case stoul (drop 2 cleaned) 2 of Inl e \<Rightarrow> Inl (Inl e) | Inr v \<Rightarrow> Inr (of_nat v))
      else Inl (fail ''Error: Opcode must start with 0x (hex) or 0b (binary)''))"

subsection \<open>Field extraction\<close>

text \<open>
  \<open>std::map<std::string, std::vector<int>>\<close> as a list of entries in key order, which is
  the order a range-for visits them in; \<open>push_back k v\<close> is \<open>field_bits[k].push_back(v)\<close>.
\<close>

type_synonym field_bits = "(string \<times> nat list) list"

fun push_back :: "string \<Rightarrow> nat \<Rightarrow> field_bits \<Rightarrow> field_bits" where
  "push_back k v [] = [(k, [v])]"
| "push_back k v ((k', vs) # m) =
     (if k = k' then (k', vs @ [v]) # m
      else if k < k' then (k, [v]) # (k', vs) # m
      else (k', vs) # push_back k v m)"

text \<open>
  The first loop: \<open>i\<close> runs over the 32 labels, label \<open>i\<close> is bit \<open>31 - i\<close>. The
  parameters \<open>bit_fields\<close> and \<open>asm_template\<close> of \<open>build_assembly\<close> are \<open>bf\<close> and \<open>tmpl\<close>
  here, since the record members have those names.
\<close>

definition collect_step :: "string list \<Rightarrow> field_bits \<Rightarrow> nat \<Rightarrow> field_bits" where
  "collect_step bf fb i =
     (if bf ! i \<noteq> ''0'' \<and> bf ! i \<noteq> ''1'' then push_back (bf ! i) (31 - i) fb else fb)"

definition collect_field_bits :: "string list \<Rightarrow> field_bits" where
  "collect_field_bits bf = foldl (collect_step bf) [] [0..<32]"

text \<open>
  The inner loop over the positions of one field: \<open>i\<close> runs over \<open>bits\<close>. A field has
  at most 32 positions, so the shift in \<open>1 << (bits.size() - 1 - i)\<close> is at most 31.
\<close>

definition value_step :: "u32 \<Rightarrow> nat list \<Rightarrow> u32 \<Rightarrow> nat \<Rightarrow> u32" where
  "value_step opcode bits value i =
     (if drop_bit (bits ! i) opcode AND 1 \<noteq> 0
      then value OR push_bit (length bits - 1 - i) 1 else value)"

definition field_value :: "u32 \<Rightarrow> nat list \<Rightarrow> u32" where
  "field_value opcode bits = foldl (value_step opcode bits) 0 [0..<length bits]"

text \<open>The local variables that hold the categorised values.\<close>

record operands =
  reg_values :: "string \<rightharpoonup> u32"
  imm_values :: "string \<rightharpoonup> u32"
  shift_value :: u32
  has_shift :: bool
  crm_value :: u32
  op2_value :: u32
  has_crm :: bool
  has_op2 :: bool

definition initial_operands :: operands where
  "initial_operands =
     \<lparr>reg_values = Map.empty, imm_values = Map.empty, shift_value = 0, has_shift = False,
      crm_value = 0, op2_value = 0, has_crm = False, has_op2 = False\<rparr>"

definition store_field :: "string \<Rightarrow> u32 \<Rightarrow> operands \<Rightarrow> operands" where
  "store_field name value st =
     (if name = ''Rd'' then st\<lparr>reg_values := (reg_values st)(''Rd'' \<mapsto> value)\<rparr>
      else if name = ''Rn'' then st\<lparr>reg_values := (reg_values st)(''Rn'' \<mapsto> value)\<rparr>
      else if name = ''Rm'' then st\<lparr>reg_values := (reg_values st)(''Rm'' \<mapsto> value)\<rparr>
      else if name = ''Rt'' then st\<lparr>reg_values := (reg_values st)(''Rt'' \<mapsto> value)\<rparr>
      else if take 3 name = ''imm'' then st\<lparr>imm_values := (imm_values st)(''imm'' \<mapsto> value)\<rparr>
      else if take 3 name = ''off'' \<or> name = ''simm''
        then st\<lparr>imm_values := (imm_values st)(''offs'' \<mapsto> value)\<rparr>
      else if name = ''sh'' then st\<lparr>shift_value := value, has_shift := True\<rparr>
      else if name = ''CRm'' then st\<lparr>crm_value := value, has_crm := True\<rparr>
      else if name = ''op2'' then st\<lparr>op2_value := value, has_op2 := True\<rparr>
      else st)"

text \<open>The second loop, over the entries of \<open>field_bits\<close> in key order.\<close>

definition extract_values :: "u32 \<Rightarrow> field_bits \<Rightarrow> operands" where
  "extract_values opcode fb =
     foldl (\<lambda>st field_pair. store_field (fst field_pair) (field_value opcode (snd field_pair)) st)
       initial_operands fb"

text \<open>"For HINT instruction, combine CRm and op2".\<close>

definition combine_hint :: "operands \<Rightarrow> operands" where
  "combine_hint st =
     (if has_crm st \<and> has_op2 st \<and> imm_values st ''imm'' = None
      then st\<lparr>imm_values := (imm_values st)(''imm'' \<mapsto> push_bit 3 (crm_value st) OR op2_value st)\<rparr>
      else st)"

definition operands_of :: "u32 \<Rightarrow> string list \<Rightarrow> operands" where
  "operands_of opcode bf = combine_hint (extract_values opcode (collect_field_bits bf))"

subsection \<open>Rendering\<close>

text \<open>\<open>assembly.find(pat)\<close>: the first position where \<open>pat\<close> occurs, if any.\<close>

fun str_find :: "string \<Rightarrow> string \<Rightarrow> nat option" where
  "str_find pat [] = (if pat = [] then Some 0 else None)"
| "str_find pat (c # s) =
     (if take (length pat) (c # s) = pat then Some 0 else map_option Suc (str_find pat s))"

text \<open>\<open>assembly.replace(pos, n, rep)\<close>; \<open>erase(pos, n)\<close> is the same with an empty \<open>rep\<close>.\<close>

definition str_replace :: "string \<Rightarrow> nat \<Rightarrow> nat \<Rightarrow> string \<Rightarrow> string" where
  "str_replace s pos n rep = take pos s @ rep @ drop (pos + n) s"

text \<open>
  \<open>while ((pos = assembly.find(pat)) != npos) assembly.replace(pos, n, rep);\<close>
  The loop ends only when no occurrence is left, so it is a partial function.
\<close>

partial_function (option) replace_all :: "string \<Rightarrow> nat \<Rightarrow> string \<Rightarrow> string \<Rightarrow> string option" where
  "replace_all pat n rep assembly =
     (case str_find pat assembly of
        None \<Rightarrow> Some assembly
      | Some pos \<Rightarrow> replace_all pat n rep (str_replace assembly pos n rep))"

declare replace_all.simps [code]

text \<open>The texts of a register index: with the stack pointer at 31, and without.\<close>

definition sp_or_x :: "u32 \<Rightarrow> string" where
  "sp_or_x r = (if r = 31 then ''sp'' else ''x'' @ to_string (unat r))"

definition wsp_or_w :: "u32 \<Rightarrow> string" where
  "wsp_or_w r = (if r = 31 then ''wsp'' else ''w'' @ to_string (unat r))"

definition x_reg :: "u32 \<Rightarrow> string" where
  "x_reg r = ''x'' @ to_string (unat r)"

definition w_reg :: "u32 \<Rightarrow> string" where
  "w_reg r = ''w'' @ to_string (unat r)"

text \<open>"Replace register placeholders": the four blocks for Rd, Rn, Rm and Rt.\<close>

definition replace_rd :: "operands \<Rightarrow> string \<Rightarrow> string option" where
  "replace_rd st assembly =
     (case reg_values st ''Rd'' of
        None \<Rightarrow> Some assembly
      | Some rd \<Rightarrow>
          do {
            a1 \<leftarrow> replace_all ''<Xd|SP>'' 7 (sp_or_x rd) assembly;
            a2 \<leftarrow> replace_all ''<Xd>'' 4 (sp_or_x rd) a1;
            a3 \<leftarrow> replace_all ''<Wd|WSP>'' 8 (wsp_or_w rd) a2;
            a4 \<leftarrow> replace_all ''<Wd>'' 4 (wsp_or_w rd) a3;
            replace_all ''<Wt>'' 4 (wsp_or_w rd) a4
          })"

definition replace_rn :: "operands \<Rightarrow> string \<Rightarrow> string option" where
  "replace_rn st assembly =
     (case reg_values st ''Rn'' of
        None \<Rightarrow> Some assembly
      | Some rn \<Rightarrow>
          do {
            a1 \<leftarrow> replace_all ''<Xn|SP>'' 7 (sp_or_x rn) assembly;
            a2 \<leftarrow> replace_all ''<Xn>'' 4 (sp_or_x rn) a1;
            a3 \<leftarrow> replace_all ''<Wn|WSP>'' 8 (wsp_or_w rn) a2;
            replace_all ''<Wn>'' 4 (wsp_or_w rn) a3
          })"

definition replace_rm :: "operands \<Rightarrow> string \<Rightarrow> string option" where
  "replace_rm st assembly =
     (case reg_values st ''Rm'' of
        None \<Rightarrow> Some assembly
      | Some rm \<Rightarrow>
          do {
            a1 \<leftarrow> replace_all ''<Xm>'' 4 (x_reg rm) assembly;
            a2 \<leftarrow> replace_all ''<R><m>'' 6 (x_reg rm) a1;
            replace_all ''<Wm>'' 4 (w_reg rm) a2
          })"

definition replace_rt :: "operands \<Rightarrow> string \<Rightarrow> string option" where
  "replace_rt st assembly =
     (case reg_values st ''Rt'' of
        None \<Rightarrow> Some assembly
      | Some rt \<Rightarrow>
          do {
            a1 \<leftarrow> replace_all ''<Xt>'' 4 (x_reg rt) assembly;
            replace_all ''<Wt>'' 4 (w_reg rt) a1
          })"

definition replace_registers :: "operands \<Rightarrow> string \<Rightarrow> string option" where
  "replace_registers st assembly =
     do {
       a1 \<leftarrow> replace_rd st assembly;
       a2 \<leftarrow> replace_rn st a1;
       a3 \<leftarrow> replace_rm st a2;
       replace_rt st a3
     }"

text \<open>"Replace immediate values (always use hex format)".\<close>

definition replace_imm :: "operands \<Rightarrow> string \<Rightarrow> string option" where
  "replace_imm st assembly =
     (case imm_values st ''imm'' of
        None \<Rightarrow> Some assembly
      | Some imm \<Rightarrow>
          do {
            a1 \<leftarrow> replace_all ''#<imm>'' 6 (''#0x'' @ to_hex (unat imm)) assembly;
            replace_all ''<imm>'' 5 (''0x'' @ to_hex (unat imm)) a1
          })"

definition replace_offs :: "operands \<Rightarrow> string \<Rightarrow> string option" where
  "replace_offs st assembly =
     (case imm_values st ''offs'' of
        None \<Rightarrow> Some assembly
      | Some offs \<Rightarrow>
          do {
            a1 \<leftarrow> replace_all ''<offs>'' 6 (''0x'' @ to_hex (unat offs)) assembly;
            replace_all ''<simm>'' 6 (''0x'' @ to_hex (unat offs)) a1
          })"

text \<open>"Handle shift field".\<close>

definition handle_shift :: "operands \<Rightarrow> string \<Rightarrow> string option" where
  "handle_shift st assembly =
     (if has_shift st then
        (if shift_value st = 0 then replace_all ''{, <shift>}'' 11 [] assembly
         else
           do {
             a1 \<leftarrow> replace_all ''<shift>'' 7 ''lsl #12'' assembly;
             a2 \<leftarrow> replace_all ''{, '' 3 '', '' a1;
             replace_all ''}'' 1 [] a2
           })
      else Some assembly)"

text \<open>"Clean up remaining optional parts".\<close>

definition clean_optional :: "string \<Rightarrow> string option" where
  "clean_optional assembly =
     do {
       a1 \<leftarrow> replace_all ''{, <shift>}'' 11 [] assembly;
       a2 \<leftarrow> replace_all ''{, <extend> {#<amount>}}'' 24 [] a1;
       replace_all ''{, <shift> #<amount>}'' 21 [] a2
     }"

text \<open>
  "Clean up extra spaces": the loop over the characters with its three variables \<open>ss\<close>,
  \<open>word\<close> and \<open>first\<close>, and the flush of the last word after it.
\<close>

definition flush_word :: "string \<times> string \<times> bool \<Rightarrow> string \<times> string \<times> bool" where
  "flush_word st =
     (case st of (ss, word, first) \<Rightarrow>
        if word \<noteq> [] then ((if \<not> first then ss @ '' '' else ss) @ word, [], False)
        else (ss, word, first))"

definition space_step :: "string \<times> string \<times> bool \<Rightarrow> char \<Rightarrow> string \<times> string \<times> bool" where
  "space_step st c =
     (if c = CHR '' '' then flush_word st
      else (case st of (ss, word, first) \<Rightarrow> (ss, word @ [c], first)))"

definition clean_spaces :: "string \<Rightarrow> string" where
  "clean_spaces assembly =
     (case foldl space_step ([], [], True) assembly of
        (ss, word, first) \<Rightarrow>
          if word \<noteq> [] then (if \<not> first then ss @ '' '' else ss) @ word else ss)"

text \<open>Everything after the register placeholders.\<close>

definition finish :: "operands \<Rightarrow> string \<Rightarrow> string option" where
  "finish st assembly =
     do {
       a1 \<leftarrow> replace_imm st assembly;
       a2 \<leftarrow> replace_offs st a1;
       a3 \<leftarrow> handle_shift st a2;
       a4 \<leftarrow> clean_optional a3;
       Some (clean_spaces a4)
     }"

definition build_assembly :: "string \<Rightarrow> u32 \<Rightarrow> string list \<Rightarrow> string option" where
  "build_assembly tmpl opcode bf =
     do {
       a \<leftarrow> replace_registers (operands_of opcode bf) tmpl;
       finish (operands_of opcode bf) a
     }"

subsection \<open>Scanning the tables\<close>

text \<open>
  The outer and the inner loop of \<open>query_by_opcode\<close>, with the text written to standard output so
  far and the flag \<open>found\<close> as their state.
\<close>

fun scan_array :: "u32 \<Rightarrow> EncodingPattern list \<Rightarrow> string \<times> bool \<Rightarrow> (string \<times> bool) option" where
  "scan_array opcode [] st = Some st"
| "scan_array opcode (enc # encodings) st =
     (if opcode AND fixed_mask enc = fixed_bits enc then
        (case build_assembly (asm_template enc) opcode (bit_fields enc) of
           None \<Rightarrow> None
         | Some assembly \<Rightarrow> scan_array opcode encodings (fst st @ assembly @ endl, True))
      else scan_array opcode encodings st)"

fun scan_arrays :: "u32 \<Rightarrow> EncodingPattern list list \<Rightarrow> string \<times> bool \<Rightarrow> (string \<times> bool) option" where
  "scan_arrays opcode [] st = Some st"
| "scan_arrays opcode (encodings # arrays) st =
     (case scan_array opcode encodings st of
        None \<Rightarrow> None
      | Some st' \<Rightarrow> scan_arrays opcode arrays st')"

text \<open>\<open>std::hex << std::setw(8) << std::setfill('0')\<close>.\<close>

definition hex8 :: "u32 \<Rightarrow> string" where
  "hex8 v = replicate (8 - length (to_hex (unat v))) CHR ''0'' @ to_hex (unat v)"

definition no_match_message :: "u32 \<Rightarrow> string" where
  "no_match_message opcode = ''No matching instruction found for opcode: 0x'' @ hex8 opcode @ endl"

text \<open>\<open>query_by_opcode\<close> returns nothing; its effect is the text on the two streams.\<close>

definition query_by_opcode :: "EncodingPattern list list \<Rightarrow> u32 \<Rightarrow> (string \<times> string) option" where
  "query_by_opcode encoding_arrays opcode =
     (case scan_arrays opcode encoding_arrays ([], False) of
        None \<Rightarrow> None
      | Some (out, found) \<Rightarrow> Some (out, if \<not> found then no_match_message opcode else []))"

definition usage_text :: string where
  "usage_text =
     ''Usage: query_isa --op <OPCODE>'' @ endl @ endl
     @ ''Decode AArch64 instruction opcode to ARM Assembler notation'' @ endl @ endl
     @ ''Options:'' @ endl
     @ ''  --op <OPCODE>    Decode opcode (format: 0xHEX or 0bBINARY)'' @ endl
     @ ''  --help           Show this help message'' @ endl @ endl
     @ ''Examples:'' @ endl
     @ ''  query_isa --op 0x91000000'' @ endl
     @ ''  query_isa --op 0x91_00_00_00              # With separators'' @ endl
     @ ''  query_isa --op 0b10010001000000000000000000000000'' @ endl @ endl
     @ ''Separator characters (optional):'' @ endl
     @ ''  '' @ [CHR 0x27] @ ''_'' @ [CHR 0x27] @ '' or '' @ [CHR 0x27] @ '':'' @ [CHR 0x27]
     @ '' can be used as 8-bit separators'' @ endl"

text \<open>
  \<open>main\<close> of the decoder: \<open>argv\<close> is the whole argument vector, program name first. The
  result is \<open>None\<close> when a rendering loop does not end.
\<close>

definition isa_main :: "EncodingPattern list list \<Rightarrow> string list \<Rightarrow> run option" where
  "isa_main encoding_arrays argv =
     (if length argv < 2 then Some (Inr \<lparr>cout = usage_text, cerr = [], ret = 1\<rparr>)
      else if argv ! 1 = ''--help'' \<or> argv ! 1 = ''-h''
        then Some (Inr \<lparr>cout = usage_text, cerr = [], ret = 0\<rparr>)
      else if argv ! 1 = ''--op'' then
        (if length argv < 3 then Some (fail ''Error: --op requires an opcode argument'')
         else
           (case parse_opcode (argv ! 2) of
              Inl stopped \<Rightarrow> Some stopped
            | Inr opcode \<Rightarrow>
                (case query_by_opcode encoding_arrays opcode of
                   None \<Rightarrow> None
                 | Some (out, err) \<Rightarrow> Some (Inr \<lparr>cout = out, cerr = err, ret = 0\<rparr>))))
      else Some (Inr \<lparr>cout = usage_text,
                      cerr = ''Error: Unknown option: '' @ argv ! 1 @ endl, ret = 1\<rparr>))"

subsection \<open>Example encodings\<close>

text \<open>
  Three encodings in the shape of the generated tables: ADD (immediate, 64-bit), its alias
  MOV (to or from SP), and HINT.
\<close>

definition add_imm_labels :: "string list" where
  "add_imm_labels =
     [''1'', ''0'', ''0'', ''1'', ''0'', ''0'', ''0'', ''1'', ''0'', ''sh'']
     @ replicate 12 ''imm12'' @ replicate 5 ''Rn'' @ replicate 5 ''Rd''"

definition add_imm :: EncodingPattern where
  "add_imm =
     \<lparr>fixed_mask = 0xFF800000, fixed_bits = 0x91000000, bit_fields = add_imm_labels,
      asm_template = ''ADD <Xd|SP>, <Xn|SP>, #<imm>{, <shift>}''\<rparr>"

definition mov_sp :: EncodingPattern where
  "mov_sp =
     \<lparr>fixed_mask = 0xFFFFFC00, fixed_bits = 0x91000000,
      bit_fields =
        [''1'', ''0'', ''0'', ''1'', ''0'', ''0'', ''0'', ''1'', ''0'', ''0'']
        @ replicate 12 ''0'' @ replicate 5 ''Rn'' @ replicate 5 ''Rd'',
      asm_template = ''MOV <Xd|SP>, <Xn|SP>''\<rparr>"

definition hint :: EncodingPattern where
  "hint =
     \<lparr>fixed_mask = 0xFFFFF01F, fixed_bits = 0xD503201F,
      bit_fields =
        [''1'', ''1'', ''0'', ''1'', ''0'', ''1'', ''0'', ''1'', ''0'', ''0'', ''0'', ''0'', ''0'', ''0'',
         ''1'', ''1'', ''0'', ''0'', ''1'', ''0'']
        @ replicate 4 ''CRm'' @ replicate 3 ''op2'' @ [''1'', ''1'', ''1'', ''1'', ''1''],
      asm_template = ''HINT #<imm>''\<rparr>"

definition ENCODINGS_0 :: "EncodingPattern list" where
  "ENCODINGS_0 = [add_imm, mov_sp]"

definition ENCODINGS_1 :: "EncodingPattern list" where
  "ENCODINGS_1 = [hint]"

definition example_encodings :: "EncodingPattern list list" where
  "example_encodings = [ENCODINGS_0, ENCODINGS_1]"

subsection \<open>Notions used to state the properties\<close>

text \<open>The encodings of a table that an opcode matches, and the line printed for one.\<close>

definition matching :: "u32 \<Rightarrow> EncodingPattern list \<Rightarrow> EncodingPattern list" where
  "matching opcode encs = filter (\<lambda>enc. opcode AND fixed_mask enc = fixed_bits enc) encs"

definition rendered :: "u32 \<Rightarrow> EncodingPattern \<Rightarrow> string" where
  "rendered opcode enc = the (build_assembly (asm_template enc) opcode (bit_fields enc))"

text \<open>
  The bit positions that carry a label, in the order of a scan from bit 31 down to bit 0:
  label \<open>i\<close> of the array is bit \<open>31 - i\<close>.
\<close>

definition bit_positions :: "string list \<Rightarrow> string \<Rightarrow> nat list" where
  "bit_positions bf f = map (\<lambda>i. 31 - i) (filter (\<lambda>i. bf ! i = f) [0..<32])"

text \<open>The positions found after the first \<open>k\<close> labels have been scanned.\<close>

definition labelled :: "string list \<Rightarrow> nat \<Rightarrow> string \<Rightarrow> nat list" where
  "labelled bf k f = map (\<lambda>i. 31 - i) (filter (\<lambda>i. bf ! i = f) [0..<k])"

text \<open>
  Labels in which one name is used at two places that are not adjacent (bits 30 to 29 and
  bits 23 to 5), as the data model allows.
\<close>

definition split_labels :: "string list" where
  "split_labels =
     [''0'', ''imm'', ''imm'', ''1'', ''0'', ''0'', ''0'', ''0'']
     @ replicate 19 ''imm'' @ replicate 5 ''Rd''"

text \<open>The second loop started from any state of the local variables.\<close>

definition store_all :: "u32 \<Rightarrow> operands \<Rightarrow> field_bits \<Rightarrow> operands" where
  "store_all opcode st fb =
     foldl (\<lambda>st field_pair. store_field (fst field_pair) (field_value opcode (snd field_pair)) st) st fb"


subsection \<open>Templates as sequences of text and register placeholders\<close>

text \<open>
  To state what the register blocks do to a template, the template is read from left to
  right as a sequence of pieces: wherever one of the register placeholders that the four
  blocks look for begins, that placeholder is a piece and the reading goes on behind it; any
  other character is a piece of text of its own.
\<close>

datatype seg = Text string | Placeholder string

fun seg_text :: "seg \<Rightarrow> string" where
  "seg_text (Text s) = s"
| "seg_text (Placeholder p) = p"

definition template_of :: "seg list \<Rightarrow> string" where
  "template_of segs = concat (map seg_text segs)"

definition register_placeholders :: "string list" where
  "register_placeholders =
     [''<Xd|SP>'', ''<Xd>'', ''<Wd|WSP>'', ''<Wd>'', ''<Wt>'', ''<Xn|SP>'', ''<Xn>'', ''<Wn|WSP>'',
      ''<Wn>'', ''<Xm>'', ''<R><m>'', ''<Wm>'', ''<Xt>'']"

text \<open>
  \<open>pieces_from k s\<close> passes over \<open>k\<close> characters, which belong to the placeholder found
  last, and then reads on.
\<close>

fun pieces_from :: "nat \<Rightarrow> string \<Rightarrow> seg list" where
  "pieces_from k [] = []"
| "pieces_from (Suc k) (c # s) = pieces_from k s"
| "pieces_from 0 (c # s) =
     (case find (\<lambda>p. take (length p) (c # s) = p) register_placeholders of
        Some p \<Rightarrow> Placeholder p # pieces_from (length p - 1) s
      | None \<Rightarrow> Text [c] # pieces_from 0 s)"

definition pieces :: "string \<Rightarrow> seg list" where
  "pieces tmpl = pieces_from 0 tmpl"

text \<open>
  The text of a register placeholder as the rules for the renderer give it, written from the
  statement of the rules and not from the code: the placeholders of Rd and of Rn show index 31
  as the stack pointer, those of Rm and of Rt show every index as a numbered register, and a
  placeholder whose register field the encoding does not have is left as it is. The
  placeholder \<open><Wt>\<close> is shown from Rd, by the rule of Rd, when the encoding has an Rd field,
  and from Rt otherwise.
\<close>

definition sp_form :: "string \<Rightarrow> string \<Rightarrow> u32 \<Rightarrow> string" where
  "sp_form sp letter r = (if r = 31 then sp else letter @ to_string (unat r))"

definition plain_form :: "string \<Rightarrow> u32 \<Rightarrow> string" where
  "plain_form letter r = letter @ to_string (unat r)"

definition register_text :: "operands \<Rightarrow> string \<Rightarrow> string option" where
  "register_text st p =
     (if p = ''<Xd|SP>'' \<or> p = ''<Xd>'' then map_option (sp_form ''sp'' ''x'') (reg_values st ''Rd'')
      else if p = ''<Wd|WSP>'' \<or> p = ''<Wd>'' then map_option (sp_form ''wsp'' ''w'') (reg_values st ''Rd'')
      else if p = ''<Xn|SP>'' \<or> p = ''<Xn>'' then map_option (sp_form ''sp'' ''x'') (reg_values st ''Rn'')
      else if p = ''<Wn|WSP>'' \<or> p = ''<Wn>'' then map_option (sp_form ''wsp'' ''w'') (reg_values st ''Rn'')
      else if p = ''<Xm>'' \<or> p = ''<R><m>'' then map_option (plain_form ''x'') (reg_values st ''Rm'')
      else if p = ''<Wm>'' then map_option (plain_form ''w'') (reg_values st ''Rm'')
      else if p = ''<Xt>'' then map_option (plain_form ''x'') (reg_values st ''Rt'')
      else if p = ''<Wt>'' then
        (case reg_values st ''Rd'' of
           Some rd \<Rightarrow> Some (sp_form ''wsp'' ''w'' rd)
         | None \<Rightarrow> map_option (plain_form ''w'') (reg_values st ''Rt''))
      else None)"

fun render_seg :: "operands \<Rightarrow> seg \<Rightarrow> seg" where
  "render_seg st (Placeholder p) = (case register_text st p of Some t \<Rightarrow> Text t | None \<Rightarrow> Placeholder p)"
| "render_seg st (Text s) = Text s"

text \<open>
  Whether a pattern can begin inside a piece: \<open>could_match pat s\<close> says that \<open>pat\<close> and
  \<open>s\<close> agree as far as both go, so that \<open>s\<close> followed by some text could begin with \<open>pat\<close>.
\<close>

definition could_match :: "string \<Rightarrow> string \<Rightarrow> bool" where
  "could_match pat s = (take (min (length pat) (length s)) pat = take (length pat) s)"

fun no_match_inside :: "string \<Rightarrow> string \<Rightarrow> bool" where
  "no_match_inside pat [] = True"
| "no_match_inside pat (c # s) = (\<not> could_match pat (c # s) \<and> no_match_inside pat s)"

text \<open>
  The characters of the register placeholders. A text is \<open>plain\<close> when it is not empty and
  has none of them, as the texts of the registers are.
\<close>

definition placeholder_chars :: string where
  "placeholder_chars = ''<>|XWRSPdnmt''"

definition plain :: "string \<Rightarrow> bool" where
  "plain rep = (rep \<noteq> [] \<and> set rep \<inter> set placeholder_chars = {})"

text \<open>
  The invariant of each replacement loop: a register placeholder begins nowhere inside a
  piece of text, whatever follows the piece, and the placeholder pieces are register
  placeholders.
\<close>

fun tight :: "seg list \<Rightarrow> bool" where
  "tight [] = True"
| "tight (Text s # segs) =
     (s \<noteq> []
      \<and> (\<forall>pat\<in>set register_placeholders. \<forall>k<length s.
           take (length pat) (drop k s @ template_of segs) \<noteq> pat)
      \<and> tight segs)"
| "tight (Placeholder p # segs) = (p \<in> set register_placeholders \<and> tight segs)"

text \<open>One replacement loop, seen on the pieces.\<close>

definition subst_seg :: "string \<Rightarrow> string \<Rightarrow> seg \<Rightarrow> seg" where
  "subst_seg pat rep sg = (if sg = Placeholder pat then Text rep else sg)"

text \<open>The four register blocks, seen on one piece.\<close>

definition rd_seg :: "operands \<Rightarrow> seg \<Rightarrow> seg" where
  "rd_seg st sg =
     (case reg_values st ''Rd'' of
        None \<Rightarrow> sg
      | Some rd \<Rightarrow>
          subst_seg ''<Wt>'' (wsp_or_w rd) (subst_seg ''<Wd>'' (wsp_or_w rd)
            (subst_seg ''<Wd|WSP>'' (wsp_or_w rd) (subst_seg ''<Xd>'' (sp_or_x rd)
              (subst_seg ''<Xd|SP>'' (sp_or_x rd) sg)))))"

definition rn_seg :: "operands \<Rightarrow> seg \<Rightarrow> seg" where
  "rn_seg st sg =
     (case reg_values st ''Rn'' of
        None \<Rightarrow> sg
      | Some rn \<Rightarrow>
          subst_seg ''<Wn>'' (wsp_or_w rn) (subst_seg ''<Wn|WSP>'' (wsp_or_w rn)
            (subst_seg ''<Xn>'' (sp_or_x rn) (subst_seg ''<Xn|SP>'' (sp_or_x rn) sg))))"

definition rm_seg :: "operands \<Rightarrow> seg \<Rightarrow> seg" where
  "rm_seg st sg =
     (case reg_values st ''Rm'' of
        None \<Rightarrow> sg
      | Some rm \<Rightarrow>
          subst_seg ''<Wm>'' (w_reg rm) (subst_seg ''<R><m>'' (x_reg rm)
            (subst_seg ''<Xm>'' (x_reg rm) sg)))"

definition rt_seg :: "operands \<Rightarrow> seg \<Rightarrow> seg" where
  "rt_seg st sg =
     (case reg_values st ''Rt'' of
        None \<Rightarrow> sg
      | Some rt \<Rightarrow> subst_seg ''<Wt>'' (w_reg rt) (subst_seg ''<Xt>'' (x_reg rt) sg))"

text \<open>
  Example inputs: an encoding with the three register fields Rm, Rn and Rd, labels that have
  both an Rt and an Rd field, labels with an Rt field and a 19-bit immediate, and labels with
  a signed offset.
\<close>

definition three_register_labels :: "string list" where
  "three_register_labels =
     [''1'', ''0'', ''0'', ''0'', ''1'', ''0'', ''1'', ''1'', ''0'', ''0'', ''0'']
     @ replicate 5 ''Rm'' @ replicate 6 ''0'' @ replicate 5 ''Rn'' @ replicate 5 ''Rd''"

definition rt_rd_labels :: "string list" where
  "rt_rd_labels = replicate 22 ''0'' @ replicate 5 ''Rt'' @ replicate 5 ''Rd''"

definition cbz_labels :: "string list" where
  "cbz_labels =
     [''1'', ''0'', ''1'', ''1'', ''0'', ''1'', ''0'', ''0''] @ replicate 19 ''imm19''
     @ replicate 5 ''Rt''"

definition offset_labels :: "string list" where
  "offset_labels =
     replicate 11 ''0'' @ replicate 9 ''simm'' @ [''0'', ''0''] @ replicate 5 ''Rn''
     @ replicate 5 ''Rt''"

section \<open>Properties of the register query tool\<close>

subsection \<open>What the three expressions accept\<close>

lemma many1_SomeD:
  "many1 p s = Some (a, b) \<Longrightarrow> s = a @ b \<and> a \<noteq> [] \<and> (\<forall>c\<in>set a. p c)"
  by (auto simp: many1_def split: if_splits dest: set_takeWhileD)

lemma many1_run:
  assumes "a \<noteq> []" "\<forall>c\<in>set a. p c" "b = [] \<or> \<not> p (hd b)"
  shows "many1 p (a @ b) = Some (a, b)"
proof -
  have "takeWhile p (a @ b) = a \<and> dropWhile p (a @ b) = b"
    using assms by (cases b) (simp_all add: takeWhile_append2 dropWhile_append2)
  then show ?thesis using assms(1) by (simp add: many1_def)
qed

lemma class_query_char:
  "reg_char c \<Longrightarrow> query_char c" "field_char c \<Longrightarrow> query_char c" "is_digit c \<Longrightarrow> query_char c"
  by (auto simp: query_char_def reg_char_def field_char_def)

lemma many1_chars:
  assumes "many1 p s = Some (a, b)" "\<And>c. p c \<Longrightarrow> query_char c" "\<forall>c\<in>set b. query_char c"
  shows "\<forall>c\<in>set s. query_char c"
  using many1_SomeD [OF assms(1)] assms(2,3) by auto

lemma lit_query_char: "query_char CHR ''.''" "query_char CHR ''[''" "query_char CHR '':''" "query_char CHR '']''"
  by (simp_all add: query_char_def)

lemma match_range_chars:
  assumes "match_range s = Some r"
  shows "\<forall>c\<in>set s. query_char c"
proof -
  from assms obtain s1 where s: "s = CHR ''['' # s1"
    by (auto simp: match_range_def split: list.splits if_splits)
  from assms s obtain hi s2 where m1: "many1 is_digit s1 = Some (hi, s2)"
    by (auto simp: match_range_def split: option.splits)
  have "\<forall>c\<in>set s2. query_char c"
  proof (cases "s2 = '']''")
    case True
    then show ?thesis by (simp add: lit_query_char)
  next
    case False
    with assms s m1 obtain s3 where s2: "s2 = CHR '':'' # s3"
      by (auto simp: match_range_def split: list.splits if_splits)
    with assms s m1 False obtain lo s4 where m2: "many1 is_digit s3 = Some (lo, s4)"
      by (auto simp: match_range_def split: option.splits)
    with assms s m1 False s2 have "s4 = '']''"
      by (auto simp: match_range_def split: if_splits)
    then have "\<forall>c\<in>set s3. query_char c"
      using many1_chars [OF m2] by (simp add: class_query_char lit_query_char)
    then show ?thesis using s2 by (simp add: lit_query_char)
  qed
  then have "\<forall>c\<in>set s1. query_char c"
    using many1_chars [OF m1] by (simp add: class_query_char)
  then show ?thesis using s by (simp add: lit_query_char)
qed


lemma dot_bracket_chars:
  assumes "dot_bracket q = Some r"
  shows "\<forall>c\<in>set q. query_char c"
proof -
  from assms obtain reg s1 where m1: "many1 reg_char q = Some (reg, s1)"
    by (auto simp: dot_bracket_def split: option.splits)
  with assms obtain s2 where s1: "s1 = CHR ''.'' # s2"
    by (auto simp: dot_bracket_def split: list.splits if_splits)
  with assms m1 obtain field s3 where m2: "many1 field_char s2 = Some (field, s3)"
    by (auto simp: dot_bracket_def split: option.splits)
  with assms m1 s1 obtain r' where "match_range s3 = Some r'"
    by (auto simp: dot_bracket_def split: option.splits)
  then have "\<forall>c\<in>set s3. query_char c" by (rule match_range_chars)
  then have "\<forall>c\<in>set s2. query_char c"
    using many1_chars [OF m2] by (simp add: class_query_char)
  then have "\<forall>c\<in>set s1. query_char c" using s1 by (simp add: lit_query_char)
  then show ?thesis using many1_chars [OF m1] by (simp add: class_query_char)
qed

lemma dot_only_chars:
  assumes "dot_only q = Some r"
  shows "\<forall>c\<in>set q. query_char c"
proof -
  from assms obtain reg s1 where m1: "many1 reg_char q = Some (reg, s1)"
    by (auto simp: dot_only_def split: option.splits)
  with assms obtain s2 where s1: "s1 = CHR ''.'' # s2"
    by (auto simp: dot_only_def split: list.splits if_splits)
  with assms m1 obtain field s3 where m2: "many1 field_char s2 = Some (field, s3)"
    by (auto simp: dot_only_def split: option.splits)
  with assms m1 s1 have "s3 = []"
    by (auto simp: dot_only_def split: if_splits)
  then have "\<forall>c\<in>set s2. query_char c"
    using many1_chars [OF m2] by (simp add: class_query_char)
  then have "\<forall>c\<in>set s1. query_char c" using s1 by (simp add: lit_query_char)
  then show ?thesis using many1_chars [OF m1] by (simp add: class_query_char)
qed

lemma bracket_chars:
  assumes "bracket q = Some r"
  shows "\<forall>c\<in>set q. query_char c"
proof -
  from assms obtain reg s1 where m1: "many1 reg_char q = Some (reg, s1)"
    by (auto simp: bracket_def split: option.splits)
  have "\<forall>c\<in>set s1. query_char c"
  proof (cases "s1 = []")
    case True
    then show ?thesis by simp
  next
    case False
    with assms m1 obtain r' where "match_range s1 = Some r'"
      by (auto simp: bracket_def split: option.splits)
    then show ?thesis by (rule match_range_chars)
  qed
  then show ?thesis using many1_chars [OF m1] by (simp add: class_query_char)
qed

lemma query_char_code: "query_char c \<Longrightarrow> (of_char c :: nat) < 97"
  unfolding query_char_def reg_char_def is_upper_def is_digit_def
  by (elim disjE conjE; simp)

lemma lower_not_query_char: "is_lower c \<Longrightarrow> \<not> query_char c"
  using query_char_code [of c] by (auto simp: is_lower_def)

lemma upper_query_char: "is_upper c \<Longrightarrow> query_char c"
  by (simp add: query_char_def reg_char_def)

lemma allowed_defs_chars: "q \<in> ALLOWED_DEFS \<Longrightarrow> \<forall>c\<in>set q. query_char c"
  unfolding ALLOWED_DEFS_def insert_iff empty_iff
  by (elim disjE; simp add: query_char_def reg_char_def is_upper_def is_digit_def)

text \<open>
  C10. A query that, once trimmed, contains a lower-case ASCII letter is rejected as an
  invalid query: nothing on standard output, the "Invalid query format" diagnostic (which
  quotes the query as given) on standard error, and status 1, whatever the two tables hold.
\<close>

theorem lowercase_query_is_invalid:
  assumes "\<exists>c\<in>set (trim query). is_lower c"
  shows "run_register_query REGISTER_DATABASE DEFINITION_TO_FIELDS query json_out =
           Inr \<lparr>cout = [],
                cerr = ''Error: Invalid query format: '' @ [CHR 0x27] @ query @ [CHR 0x27] @ endl,
                ret = 1\<rparr>"
proof -
  from assms obtain c where c: "c \<in> set (trim query)" "\<not> query_char c"
    using lower_not_query_char by blast
  have "trim query \<notin> ALLOWED_DEFS"
    using c allowed_defs_chars by blast
  moreover have "dot_bracket (trim query) = None"
    using c dot_bracket_chars by (cases "dot_bracket (trim query)") blast+
  moreover have "dot_only (trim query) = None"
    using c dot_only_chars by (cases "dot_only (trim query)") blast+
  moreover have "bracket (trim query) = None"
    using c bracket_chars by (cases "bracket (trim query)") blast+
  ultimately show ?thesis
    by (simp add: run_register_query_def invalid_query_def fail_def)
qed

theorem lowercase_query_is_invalid_witness:
  "(\<exists>c\<in>set (trim '' hcr_el2[1] ''). is_lower c) \<and>
   run_register_query Map.empty Map.empty '' hcr_el2[1] '' True =
     Inr \<lparr>cout = [], cerr = ''Error: Invalid query format: '' @ [CHR 0x27] @ '' hcr_el2[1] '' @ [CHR 0x27] @ endl,
          ret = 1\<rparr>"
proof -
  have h: "\<exists>c\<in>set (trim '' hcr_el2[1] ''). is_lower c"
    by (simp add: trim_def isspace_def is_lower_def)
  show ?thesis
    using h lowercase_query_is_invalid [OF h, of Map.empty Map.empty True] by simp
qed

subsection \<open>Queries built from well-formed tokens\<close>

lemma token_simps:
  "reg_token s \<longleftrightarrow> s \<noteq> [] \<and> (\<forall>c\<in>set s. reg_char c)"
  "field_token s \<longleftrightarrow> s \<noteq> [] \<and> (\<forall>c\<in>set s. field_char c)"
  "number s \<longleftrightarrow> s \<noteq> [] \<and> (\<forall>c\<in>set s. is_digit c)"
  by (simp_all add: reg_token_def field_token_def number_def list_all_iff)

lemma class_literals:
  "\<not> reg_char CHR ''.''" "\<not> reg_char CHR ''[''" "\<not> field_char CHR ''[''"
  "\<not> is_digit CHR '':''" "\<not> is_digit CHR '']''"
  by (simp_all add: reg_char_def field_char_def is_upper_def is_digit_def)

lemma match_range_text:
  assumes "number hi" "opt_number lo"
  shows "match_range (range_text hi lo) = Some (hi, lo)"
proof (cases lo)
  case None
  have "many1 is_digit (hi @ '']'') = Some (hi, '']'')"
    using assms(1) by (intro many1_run) (simp_all add: token_simps class_literals)
  then show ?thesis using None by (simp add: match_range_def range_text_def)
next
  case (Some l)
  have 1: "many1 is_digit (hi @ '':'' @ l @ '']'') = Some (hi, '':'' @ l @ '']'')"
    using assms(1) by (intro many1_run) (simp_all add: token_simps class_literals)
  have 2: "many1 is_digit (l @ '']'') = Some (l, '']'')"
    using assms(2) Some by (intro many1_run) (simp_all add: opt_number_def token_simps class_literals)
  show ?thesis using Some 1 2 by (simp add: match_range_def range_text_def)
qed

lemma range_text_not_Nil: "range_text hi lo \<noteq> []"
  by (simp add: range_text_def)

lemma hd_range_text: "hd (range_text hi lo) = CHR ''[''"
  by (simp add: range_text_def)

lemma dot_bracket_text:
  assumes "reg_token reg" "field_token field" "number hi" "opt_number lo"
  shows "dot_bracket (reg @ ''.'' @ field @ range_text hi lo) = Some (reg, field, hi, lo)"
proof -
  have 1: "many1 reg_char (reg @ ''.'' @ field @ range_text hi lo)
             = Some (reg, ''.'' @ field @ range_text hi lo)"
    using assms(1) by (intro many1_run) (simp_all add: token_simps class_literals)
  have 2: "many1 field_char (field @ range_text hi lo) = Some (field, range_text hi lo)"
    using assms(2)
    by (intro many1_run) (simp_all add: token_simps class_literals hd_range_text)
  show ?thesis
    using 1 2 match_range_text [OF assms(3,4)] by (simp add: dot_bracket_def)
qed

lemma bracket_text:
  assumes "reg_token reg" "number hi" "opt_number lo"
  shows "bracket (reg @ range_text hi lo) = Some (reg, Some (hi, lo))"
proof -
  have 1: "many1 reg_char (reg @ range_text hi lo) = Some (reg, range_text hi lo)"
    using assms(1)
    by (intro many1_run) (simp_all add: token_simps class_literals hd_range_text)
  show ?thesis
    using 1 match_range_text [OF assms(2,3)] by (simp add: bracket_def range_text_not_Nil)
qed

lemma no_dot_range_text:
  assumes "reg_token reg"
  shows "dot_bracket (reg @ range_text hi lo) = None" "dot_only (reg @ range_text hi lo) = None"
proof -
  have 1: "many1 reg_char (reg @ range_text hi lo) = Some (reg, range_text hi lo)"
    using assms(1)
    by (intro many1_run) (simp_all add: token_simps class_literals hd_range_text)
  show "dot_bracket (reg @ range_text hi lo) = None"
    using 1 by (simp add: dot_bracket_def range_text_def)
  show "dot_only (reg @ range_text hi lo) = None"
    using 1 by (simp add: dot_only_def range_text_def)
qed

lemma bare_token:
  assumes "reg_token reg"
  shows "dot_bracket reg = None" "dot_only reg = None" "bracket reg = Some (reg, None)"
proof -
  have 1: "many1 reg_char reg = Some (reg, [])"
    using many1_run [of reg reg_char "[]"] assms by (simp add: token_simps)
  show "dot_bracket reg = None" using 1 by (simp add: dot_bracket_def)
  show "dot_only reg = None" using 1 by (simp add: dot_only_def)
  show "bracket reg = Some (reg, None)" using 1 by (simp add: bracket_def)
qed


lemma trim_id:
  assumes "q \<noteq> []" "\<not> isspace (hd q)" "\<not> isspace (last q)"
  shows "trim q = q"
proof -
  have 1: "dropWhile isspace q = q"
    using assms(1,2) by (cases q) simp_all
  have "rev q \<noteq> []" "\<not> isspace (hd (rev q))"
    using assms(1,3) by (simp_all add: hd_rev)
  then have "dropWhile isspace (rev q) = rev q"
    by (cases "rev q") simp_all
  then show ?thesis using 1 by (simp add: trim_def)
qed

lemma reg_char_not_space: "reg_char c \<Longrightarrow> \<not> isspace c"
proof
  assume r: "reg_char c" and "isspace c"
  then consider "c = CHR 0x20" | "(of_char c :: nat) \<le> 13"
    by (auto simp: isspace_def)
  then show False
  proof cases
    case 1
    then show False using r by (simp add: reg_char_def is_upper_def is_digit_def)
  next
    case 2
    with r show False
      unfolding reg_char_def is_upper_def is_digit_def by (elim disjE conjE; simp)
  qed
qed

lemma close_not_space: "\<not> isspace CHR '']''"
  by (simp add: isspace_def)

lemma trim_bracket_query:
  assumes "reg_token reg"
  shows "trim (reg @ range_text hi lo) = reg @ range_text hi lo"
proof (rule trim_id)
  show "reg @ range_text hi lo \<noteq> []" by (simp add: range_text_not_Nil)
  show "\<not> isspace (hd (reg @ range_text hi lo))"
    using assms by (cases reg) (simp_all add: token_simps reg_char_not_space)
  show "\<not> isspace (last (reg @ range_text hi lo))"
    by (simp add: range_text_def close_not_space)
qed

lemma trim_dot_bracket_query:
  assumes "reg_token reg"
  shows "trim (reg @ ''.'' @ field @ range_text hi lo) = reg @ ''.'' @ field @ range_text hi lo"
proof (rule trim_id)
  show "reg @ ''.'' @ field @ range_text hi lo \<noteq> []" by simp
  show "\<not> isspace (hd (reg @ ''.'' @ field @ range_text hi lo))"
    using assms by (cases reg) (simp_all add: token_simps reg_char_not_space)
  show "\<not> isspace (last (reg @ ''.'' @ field @ range_text hi lo))"
    by (simp add: range_text_def close_not_space)
qed

lemma allowed_defs_alnum: "q \<in> ALLOWED_DEFS \<Longrightarrow> \<forall>c\<in>set q. is_upper c \<or> is_digit c"
  unfolding ALLOWED_DEFS_def insert_iff empty_iff
  by (elim disjE; simp add: is_upper_def is_digit_def)

lemma open_not_alnum: "\<not> (is_upper CHR ''['' \<or> is_digit CHR ''['')"
  by (simp add: is_upper_def is_digit_def)

lemma bracket_query_not_keyword: "q @ range_text hi lo \<notin> ALLOWED_DEFS"
proof
  assume "q @ range_text hi lo \<in> ALLOWED_DEFS"
  then have "\<forall>c\<in>set (q @ range_text hi lo). is_upper c \<or> is_digit c"
    by (rule allowed_defs_alnum)
  moreover have "CHR ''['' \<in> set (q @ range_text hi lo)"
    by (simp add: range_text_def)
  ultimately show False using open_not_alnum by blast
qed

lemma stoi_fits: "fits_int s \<Longrightarrow> stoi s = Inr (int_of s)"
  by (simp add: stoi_def fits_int_def int_of_def)

lemma stoi_cases: "stoi s = Inl Out_of_range \<or> stoi s = Inr (int_of s)"
  by (simp add: stoi_def int_of_def)

lemma high_low_fits:
  assumes "fits_int hi" "opt_fits_int lo"
  shows "high_low hi lo = Inr (int_of hi, low_of hi lo)"
  using assms by (cases lo) (simp_all add: high_low_def stoi_fits opt_fits_int_def low_of_def)

lemma collect_matching_filter:
  "collect_matching start end flds acc = acc @ filter (overlaps start end) flds"
  by (induction flds arbitrary: acc) (simp_all add: overlaps_def)

subsection \<open>The three bracket and token forms\<close>

lemma dot_query_not_keyword: "reg @ ''.'' @ rest \<notin> ALLOWED_DEFS"
proof
  assume "reg @ ''.'' @ rest \<in> ALLOWED_DEFS"
  then have "\<forall>c\<in>set (reg @ ''.'' @ rest). is_upper c \<or> is_digit c"
    by (rule allowed_defs_alnum)
  moreover have "CHR ''.'' \<in> set (reg @ ''.'' @ rest)" by simp
  moreover have "\<not> (is_upper CHR ''.'' \<or> is_digit CHR ''.'')"
    by (simp add: is_upper_def is_digit_def)
  ultimately show False by blast
qed


text \<open>
  C3, as amended. A query that is a bare token (no dot, no bracket), is not one of the
  definition keywords and does not name a register of the table is answered with the
  "Register ... not found in database" diagnostic and status 1, and nothing is printed on
  standard output. No field list is searched for the token.
\<close>

theorem unknown_register_is_not_found:
  assumes "reg_token (trim query)" "trim query \<notin> ALLOWED_DEFS"
    and "REGISTER_DATABASE (trim query) = None"
  shows "run_register_query REGISTER_DATABASE DEFINITION_TO_FIELDS query json_out =
           Inr \<lparr>cout = [],
                cerr = ''Error: Register '' @ [CHR 0x27] @ trim query @ [CHR 0x27]
                       @ '' not found in database.'' @ endl,
                ret = 1\<rparr>"
  using assms bare_token [OF assms(1)]
  by (simp add: run_register_query_def query_register_def register_not_found_def fail_def)

text \<open>
  C5, as amended. For a query \<open>REG.FIELD[hi:lo]\<close> or \<open>REG.FIELD[bit]\<close> on a known
  register, with numbers that fit an \<open>int\<close>: when no field of the register has both the name
  and exactly the range (max, min), the run ends with status 1 and the single diagnostic
  "Field ... exists but not at bit range [max:min] or not found", whether or not a field of
  that name exists in the register.
\<close>

theorem field_range_failure_is_one_diagnostic:
  assumes "reg_token reg" "field_token field" "number hi" "opt_number lo"
    and "fits_int hi" "opt_fits_int lo"
    and "REGISTER_DATABASE reg = Some r"
    and "\<not> (\<exists>fld\<in>set (reg_fields r).
              field_name fld = field
              \<and> field_msb fld = max (int_of hi) (low_of hi lo)
              \<and> field_lsb fld = min (int_of hi) (low_of hi lo))"
  shows "run_register_query REGISTER_DATABASE DEFINITION_TO_FIELDS
           (reg @ ''.'' @ field @ range_text hi lo) json_out =
         Inr \<lparr>cout = [],
              cerr = not_at_range_or_not_found field
                       (min (int_of hi) (low_of hi lo)) (max (int_of hi) (low_of hi lo)) @ endl,
              ret = 1\<rparr>"
proof -
  let ?q = "reg @ ''.'' @ field @ range_text hi lo"
  have q: "trim ?q = ?q" by (rule trim_dot_bracket_query [OF assms(1)])
  have k: "?q \<notin> ALLOWED_DEFS" by (rule dot_query_not_keyword)
  have p: "dot_bracket ?q = Some (reg, field, hi, lo)"
    by (rule dot_bracket_text [OF assms(1-4)])
  have f: "find (\<lambda>fld. field_name fld = field
                  \<and> field_msb fld = max (int_of hi) (low_of hi lo)
                  \<and> field_lsb fld = min (int_of hi) (low_of hi lo)) (reg_fields r) = None"
    using assms(8) by (auto simp: find_None_iff)
  have "query_field_range REGISTER_DATABASE json_out reg field hi lo =
          fail (not_at_range_or_not_found field
                  (min (int_of hi) (low_of hi lo)) (max (int_of hi) (low_of hi lo)))"
    using f assms(7) by (simp add: query_field_range_def high_low_fits [OF assms(5,6)])
  then show ?thesis
    using q k p by (simp add: run_register_query_def fail_def)
qed

lemma high_low_swap:
  "(case high_low hi (Some lo) of Inl e \<Rightarrow> Inl e | Inr (high, low) \<Rightarrow> f (min high low) (max high low)) =
   (case high_low lo (Some hi) of Inl e \<Rightarrow> Inl e | Inr (high, low) \<Rightarrow> f (min high low) (max high low))"
  using stoi_cases [of hi] stoi_cases [of lo]
  by (auto simp: high_low_def min.commute max.commute)

lemma query_bit_range_swap:
  "query_bit_range REGISTER_DATABASE json_out reg hi (Some lo) =
   query_bit_range REGISTER_DATABASE json_out reg lo (Some hi)"
  unfolding query_bit_range_def Let_def by (rule high_low_swap)

lemma run_bit_range:
  assumes "reg_token reg" "number hi" "opt_number lo"
  shows "run_register_query REGISTER_DATABASE DEFINITION_TO_FIELDS (reg @ range_text hi lo) json_out =
         query_bit_range REGISTER_DATABASE json_out reg hi lo"
  using trim_bracket_query [OF assms(1), of hi lo] bracket_query_not_keyword [of reg hi lo]
    no_dot_range_text [OF assms(1), of hi lo] bracket_text [OF assms]
  by (simp add: run_register_query_def)

text \<open>
  C7, as amended. For a register token and two numbers, the queries \<open>R[hi:lo]\<close> and
  \<open>R[lo:hi]\<close> give the same run. When both numbers fit an \<open>int\<close> and the register is
  known, the run is decided by the fields that pass the overlap test
  \<open>lsb \<le> end \<and> msb \<ge> start\<close> with start = min and end = max: with none it fails with
  status 1; with start = end it prints the first of them only; otherwise it prints all of
  them, in the order of the register's field list.
\<close>

theorem bit_range_query_symmetric:
  assumes "reg_token reg" "number hi" "number lo"
  shows "run_register_query REGISTER_DATABASE DEFINITION_TO_FIELDS
           (reg @ ''['' @ hi @ '':'' @ lo @ '']'') json_out =
         run_register_query REGISTER_DATABASE DEFINITION_TO_FIELDS
           (reg @ ''['' @ lo @ '':'' @ hi @ '']'') json_out
       \<and> (fits_int hi \<and> fits_int lo \<and> REGISTER_DATABASE reg = Some r \<longrightarrow>
            run_register_query REGISTER_DATABASE DEFINITION_TO_FIELDS
              (reg @ ''['' @ hi @ '':'' @ lo @ '']'') json_out =
            (let start = min (int_of hi) (int_of lo); end = max (int_of hi) (int_of lo);
                 matching_fields = filter (overlaps start end) (reg_fields r)
             in if matching_fields = [] then
                  Inr \<lparr>cout = [], cerr = no_fields_in_range reg start end @ endl, ret = 1\<rparr>
                else if start = end then
                  Inr \<lparr>cout = single_bit_output json_out reg start [hd matching_fields], cerr = [], ret = 0\<rparr>
                else
                  Inr \<lparr>cout = range_output json_out reg start end matching_fields, cerr = [], ret = 0\<rparr>))"
proof -
  have t: "reg @ ''['' @ a @ '':'' @ b @ '']'' = reg @ range_text a (Some b)" for a b
    by (simp add: range_text_def)
  have on: "opt_number (Some hi)" "opt_number (Some lo)"
    using assms by (simp_all add: opt_number_def)
  have 1: "run_register_query REGISTER_DATABASE DEFINITION_TO_FIELDS
             (reg @ ''['' @ a @ '':'' @ b @ '']'') json_out =
           query_bit_range REGISTER_DATABASE json_out reg a (Some b)"
    if "number a" "number b" for a b
    unfolding t using that by (intro run_bit_range assms(1)) (simp_all add: opt_number_def)
  have sym: "run_register_query REGISTER_DATABASE DEFINITION_TO_FIELDS
               (reg @ ''['' @ hi @ '':'' @ lo @ '']'') json_out =
             run_register_query REGISTER_DATABASE DEFINITION_TO_FIELDS
               (reg @ ''['' @ lo @ '':'' @ hi @ '']'') json_out"
    using 1 [OF assms(2,3)] 1 [OF assms(3,2)] query_bit_range_swap by simp
  have val: "query_bit_range REGISTER_DATABASE json_out reg hi (Some lo) =
            (let start = min (int_of hi) (int_of lo); end = max (int_of hi) (int_of lo);
                 matching_fields = filter (overlaps start end) (reg_fields r)
             in if matching_fields = [] then
                  Inr \<lparr>cout = [], cerr = no_fields_in_range reg start end @ endl, ret = 1\<rparr>
                else if start = end then
                  Inr \<lparr>cout = single_bit_output json_out reg start [hd matching_fields], cerr = [], ret = 0\<rparr>
                else
                  Inr \<lparr>cout = range_output json_out reg start end matching_fields, cerr = [], ret = 0\<rparr>)"
    if "fits_int hi" "fits_int lo" "REGISTER_DATABASE reg = Some r"
  proof -
    have "high_low hi (Some lo) = Inr (int_of hi, int_of lo)"
      using that(1,2) by (simp add: high_low_def stoi_fits)
    then show ?thesis
      using that(3)
      by (simp add: query_bit_range_def collect_matching_filter Let_def ok_def fail_def
            single_bit_output_def)
  qed
  show ?thesis
    using sym val 1 [OF assms(2,3)] by simp
qed

subsection \<open>The properties at concrete queries\<close>

lemmas eval_chars = isspace_def is_upper_def is_digit_def reg_char_def field_char_def
lemmas eval_parse = trim_def many1_def match_range_def dot_bracket_def dot_only_def bracket_def
  ALLOWED_DEFS_def
lemmas eval_tokens = reg_token_def field_token_def number_def opt_number_def fits_int_def
  opt_fits_int_def int_of_def low_of_def digits_value_def digit_val_def range_text_def
lemmas eval_show = show_int_def to_string_def digits_of.simps digit_char_def endl_def

text \<open>
  The field TGE exists in the one register of the example table, yet the query \<open>TGE\<close> is
  answered with "Register not found".
\<close>

theorem global_field_search_counterexample:
  "run_register_query example_database Map.empty ''TGE'' False =
     Inr \<lparr>cout = [],
          cerr = ''Error: Register '' @ [CHR 0x27] @ ''TGE'' @ [CHR 0x27] @ '' not found in database.'' @ endl,
          ret = 1\<rparr>
   \<and> map field_name (reg_fields (the (example_database ''HCR_EL2''))) = [''TGE'', ''SWIO'', ''VM'']"
  by (simp add: run_register_query_def query_register_def register_not_found_def fail_def
        example_database_def mk_field_def eval_parse eval_chars)

theorem unknown_register_is_not_found_witness:
  "reg_token (trim ''TGE'') \<and> trim ''TGE'' \<notin> ALLOWED_DEFS \<and> example_database (trim ''TGE'') = None
   \<and> run_register_query example_database Map.empty ''TGE'' True =
       Inr \<lparr>cout = [],
            cerr = ''Error: Register '' @ [CHR 0x27] @ ''TGE'' @ [CHR 0x27] @ '' not found in database.'' @ endl,
            ret = 1\<rparr>"
proof -
  have t: "trim ''TGE'' = ''TGE''" by (simp add: trim_def isspace_def)
  have h1: "reg_token (trim ''TGE'')" unfolding t by (simp add: reg_token_def eval_chars)
  have h2: "trim ''TGE'' \<notin> ALLOWED_DEFS" unfolding t by (simp add: ALLOWED_DEFS_def)
  have h3: "example_database (trim ''TGE'') = None" unfolding t by (simp add: example_database_def)
  show ?thesis
    using h1 h2 h3 unknown_register_is_not_found
      [where REGISTER_DATABASE = example_database and query = "''TGE''"
         and DEFINITION_TO_FIELDS = Map.empty and json_out = True, OF h1 h2 h3] by (simp add: t)
qed

text \<open>
  The same query gives the same run on a register that has SWIO at another range and on a
  register that has no SWIO at all.
\<close>

theorem field_range_errors_counterexample:
  "run_register_query example_database Map.empty ''HCR_EL2.SWIO[2:2]'' False =
     Inr \<lparr>cout = [],
          cerr = ''Error: Field '' @ [CHR 0x27] @ ''SWIO'' @ [CHR 0x27]
                 @ '' exists but not at bit range [2:2] or not found.'' @ endl,
          ret = 1\<rparr>
   \<and> run_register_query example_database_no_swio Map.empty ''HCR_EL2.SWIO[2:2]'' False =
     run_register_query example_database Map.empty ''HCR_EL2.SWIO[2:2]'' False
   \<and> map field_name (reg_fields (the (example_database ''HCR_EL2''))) = [''TGE'', ''SWIO'', ''VM'']
   \<and> map field_name (reg_fields (the (example_database_no_swio ''HCR_EL2''))) = [''TGE'', ''VM'']"
  by (simp add: run_register_query_def query_field_range_def high_low_def stoi_def
        not_at_range_or_not_found_def fail_def
        example_database_def example_database_no_swio_def mk_field_def
        eval_parse eval_chars digits_value_def digit_val_def eval_show)

theorem field_range_failure_is_one_diagnostic_witness:
  "reg_token ''HCR_EL2'' \<and> field_token ''SWIO'' \<and> number ''2'' \<and> opt_number (Some ''2'')
   \<and> fits_int ''2'' \<and> opt_fits_int (Some ''2'')
   \<and> example_database ''HCR_EL2'' = Some (the (example_database ''HCR_EL2''))
   \<and> \<not> (\<exists>fld\<in>set (reg_fields (the (example_database ''HCR_EL2''))).
              field_name fld = ''SWIO''
              \<and> field_msb fld = max (int_of ''2'') (low_of ''2'' (Some ''2''))
              \<and> field_lsb fld = min (int_of ''2'') (low_of ''2'' (Some ''2'')))
   \<and> run_register_query example_database Map.empty ''HCR_EL2.SWIO[2:2]'' True =
       Inr \<lparr>cout = [],
            cerr = ''Error: Field '' @ [CHR 0x27] @ ''SWIO'' @ [CHR 0x27]
                   @ '' exists but not at bit range [2:2] or not found.'' @ endl,
            ret = 1\<rparr>"
proof -
  have h1: "reg_token ''HCR_EL2''" by (simp add: reg_token_def eval_chars)
  have h2: "field_token ''SWIO''" by (simp add: field_token_def eval_chars)
  have h3: "number ''2''" by (simp add: number_def eval_chars)
  have h4: "opt_number (Some ''2'')" by (simp add: opt_number_def number_def eval_chars)
  have h5: "fits_int ''2''" by (simp add: eval_tokens)
  have h6: "opt_fits_int (Some ''2'')" by (simp add: eval_tokens)
  have h7: "example_database ''HCR_EL2'' = Some (the (example_database ''HCR_EL2''))"
    by (simp add: example_database_def)
  have h8: "\<not> (\<exists>fld\<in>set (reg_fields (the (example_database ''HCR_EL2''))).
              field_name fld = ''SWIO''
              \<and> field_msb fld = max (int_of ''2'') (low_of ''2'' (Some ''2''))
              \<and> field_lsb fld = min (int_of ''2'') (low_of ''2'' (Some ''2'')))"
    by (simp add: example_database_def mk_field_def eval_tokens)
  have v: "not_at_range_or_not_found ''SWIO''
             (min (int_of ''2'') (low_of ''2'' (Some ''2''))) (max (int_of ''2'') (low_of ''2'' (Some ''2'')))
           = ''Error: Field '' @ [CHR 0x27] @ ''SWIO'' @ [CHR 0x27]
                   @ '' exists but not at bit range [2:2] or not found.''"
    by (simp add: not_at_range_or_not_found_def eval_tokens eval_show)
  show ?thesis
    using h1 h2 h3 h4 h5 h6 h7 h8
      field_range_failure_is_one_diagnostic
        [where REGISTER_DATABASE = example_database and DEFINITION_TO_FIELDS = Map.empty
           and json_out = True, OF h1 h2 h3 h4 h5 h6 h7 h8]
    by (simp add: v range_text_def)
qed

text \<open>
  Two fields of the example register contain bit 2; the single-bit form of the query prints
  only the first.
\<close>

theorem bit_range_single_bit_counterexample:
  "run_register_query example_database_shared_bits Map.empty ''EXAMPLE_EL1[2:2]'' False =
     Inr \<lparr>cout = ''Register: EXAMPLE_EL1'' @ endl @ ''Bit Position: [2]'' @ endl
                 @ ''Field Name: WIDE'' @ endl,
          cerr = [], ret = 0\<rparr>
   \<and> map field_name (filter (overlaps 2 2) (reg_fields (the (example_database_shared_bits ''EXAMPLE_EL1''))))
       = [''WIDE'', ''NARROW'']"
  by (simp add: run_register_query_def query_bit_range_def high_low_def stoi_def
        single_bit_output_def ok_def overlaps_def
        example_database_shared_bits_def mk_field_def
        eval_parse eval_chars digits_value_def digit_val_def eval_show)

theorem bit_range_query_symmetric_witness:
  "reg_token ''HCR_EL2'' \<and> number ''27'' \<and> number ''1''
   \<and> fits_int ''27'' \<and> fits_int ''1''
   \<and> example_database ''HCR_EL2'' = Some (the (example_database ''HCR_EL2''))
   \<and> run_register_query example_database Map.empty ''HCR_EL2[27:1]'' False =
       run_register_query example_database Map.empty ''HCR_EL2[1:27]'' False
   \<and> run_register_query example_database Map.empty ''HCR_EL2[27:1]'' False =
       Inr \<lparr>cout = ''Register: HCR_EL2'' @ endl @ ''Bit Range: [27:1]'' @ endl
                   @ ''  [27:27]  TGE'' @ endl @ ''  [1:1]  SWIO'' @ endl,
            cerr = [], ret = 0\<rparr>"
proof -
  have h1: "reg_token ''HCR_EL2''" by (simp add: reg_token_def eval_chars)
  have h2: "number ''27''" by (simp add: number_def eval_chars)
  have h3: "number ''1''" by (simp add: number_def eval_chars)
  have h4: "fits_int ''27''" "fits_int ''1''" by (simp_all add: eval_tokens)
  have h5: "example_database ''HCR_EL2'' = Some (the (example_database ''HCR_EL2''))"
    by (simp add: example_database_def)
  have v: "int_of ''27'' = 27" "int_of ''1'' = 1" by (simp_all add: eval_tokens)
  have o: "range_output False ''HCR_EL2'' 1 27
             (filter (overlaps 1 27) (reg_fields (the (example_database ''HCR_EL2''))))
           = ''Register: HCR_EL2'' @ endl @ ''Bit Range: [27:1]'' @ endl
                   @ ''  [27:27]  TGE'' @ endl @ ''  [1:1]  SWIO'' @ endl"
    by (simp add: range_output_def overlaps_def example_database_def mk_field_def
          pos_name_line_def eval_show)
  have f: "filter (overlaps 1 27) (reg_fields (the (example_database ''HCR_EL2''))) \<noteq> []"
    by (simp add: overlaps_def example_database_def mk_field_def)
  note th = bit_range_query_symmetric [OF h1 h2 h3, of example_database Map.empty False
        "the (example_database ''HCR_EL2'')"]
  have sym: "run_register_query example_database Map.empty ''HCR_EL2[27:1]'' False =
       run_register_query example_database Map.empty ''HCR_EL2[1:27]'' False"
    using th [THEN conjunct1] by simp
  have val: "run_register_query example_database Map.empty ''HCR_EL2[27:1]'' False =
       Inr \<lparr>cout = ''Register: HCR_EL2'' @ endl @ ''Bit Range: [27:1]'' @ endl
                   @ ''  [27:27]  TGE'' @ endl @ ''  [1:1]  SWIO'' @ endl,
            cerr = [], ret = 0\<rparr>"
    using th [THEN conjunct2] h4 h5 by (simp add: v o f)
  show ?thesis
    using h1 h2 h3 h4 h5 sym val by blast
qed

section \<open>Properties of the opcode decoder\<close>

subsection \<open>Searching and replacing in the template\<close>

lemma str_find_SomeD:
  "str_find pat s = Some pos \<Longrightarrow> s = take pos s @ pat @ drop (pos + length pat) s"
proof (induction s arbitrary: pos)
  case Nil
  then show ?case by (simp split: if_splits)
next
  case (Cons c s)
  show ?case
  proof (cases "take (length pat) (c # s) = pat")
    case True
    with Cons.prems have "pos = 0" by simp
    then show ?thesis using True append_take_drop_id [of "length pat" "c # s"] by simp
  next
    case False
    with Cons.prems obtain p where p: "str_find pat s = Some p" "pos = Suc p" by auto
    from Cons.IH [OF p(1)] show ?thesis using p(2) by simp
  qed
qed

lemma str_find_NoneI:
  assumes "c \<in> set pat" "c \<notin> set s"
  shows "str_find pat s = None"
proof (cases "str_find pat s")
  case None
  then show ?thesis .
next
  case (Some pos)
  from str_find_SomeD [OF Some] have "set pat \<subseteq> set s"
    by (metis Un_upper1 Un_upper2 set_append subset_trans)
  with assms show ?thesis by blast
qed

lemma replace_all_absent:
  assumes "c \<in> set pat" "c \<notin> set s"
  shows "replace_all pat n rep s = Some s"
  using str_find_NoneI [OF assms] by (simp add: replace_all.simps)

lemma replace_all_terminates:
  assumes "c \<in> set pat" "c \<notin> set rep"
  shows "\<exists>r. replace_all pat (length pat) rep s = Some r"
proof (induction "count_list s c" arbitrary: s rule: less_induct)
  case less
  show ?case
  proof (cases "str_find pat s")
    case None
    then show ?thesis by (simp add: replace_all.simps)
  next
    case (Some pos)
    let ?s' = "str_replace s pos (length pat) rep"
    from str_find_SomeD [OF Some]
    have "count_list s c =
            count_list (take pos s) c + count_list pat c + count_list (drop (pos + length pat) s) c"
      by (metis count_list_append add.assoc)
    moreover have "count_list pat c > 0"
      using assms(1) by (simp add: count_list_0_iff zero_less_iff_neq_zero)
    moreover have "count_list rep c = 0"
      using assms(2) by (simp add: count_list_0_iff)
    ultimately have "count_list ?s' c < count_list s c"
      by (simp add: str_replace_def)
    from less [OF this] obtain r where "replace_all pat (length pat) rep ?s' = Some r" ..
    then show ?thesis using Some by (subst replace_all.simps) simp
  qed
qed

lemma digit_char_in: "d < 16 \<Longrightarrow> digit_char d \<in> set ''0123456789abcdef''"
  unfolding digit_char_def by (rule nth_mem) simp

lemma digits_of_chars:
  "2 \<le> b \<Longrightarrow> b \<le> 16 \<Longrightarrow> set (digits_of b n) \<subseteq> set ''0123456789abcdef''"
proof (induction b n rule: digits_of.induct)
  case (1 b n)
  show ?case
  proof (cases "n < b")
    case True
    then have "digits_of b n = [digit_char n]" by (subst digits_of.simps) simp
    moreover have "digit_char n \<in> set ''0123456789abcdef''"
      using True "1.prems" by (intro digit_char_in) simp
    ultimately show ?thesis by simp
  next
    case False
    then have eq: "digits_of b n = digits_of b (n div b) @ [digit_char (n mod b)]"
      using "1.prems" by (subst digits_of.simps) simp
    have "n mod b < b" using "1.prems" by simp
    then have "n mod b < 16" using "1.prems"(2) by (rule less_le_trans)
    then have "digit_char (n mod b) \<in> set ''0123456789abcdef''" by (rule digit_char_in)
    moreover have "set (digits_of b (n div b)) \<subseteq> set ''0123456789abcdef''"
      using "1.IH" False "1.prems" by simp
    ultimately show ?thesis unfolding eq by simp
  qed
qed

lemma number_text_chars:
  "set (to_string n) \<subseteq> set ''0123456789abcdef''" "set (to_hex n) \<subseteq> set ''0123456789abcdef''"
  by (simp_all add: to_string_def to_hex_def digits_of_chars del: set_simps)

lemma number_text_plain:
  "set (to_string n) \<inter> {CHR ''<'', CHR ''{'', CHR ''}''} = {}"
  "set (to_hex n) \<inter> {CHR ''<'', CHR ''{'', CHR ''}''} = {}"
  using number_text_chars [of n] by auto

lemma register_text_plain:
  "CHR ''<'' \<notin> set (sp_or_x r)" "CHR ''<'' \<notin> set (wsp_or_w r)"
  "CHR ''<'' \<notin> set (x_reg r)" "CHR ''<'' \<notin> set (w_reg r)"
  using number_text_plain(1) [of "unat r"]
  by (auto simp: sp_or_x_def wsp_or_w_def x_reg_def w_reg_def)

lemma immediate_text_plain:
  "CHR ''<'' \<notin> set (''#0x'' @ to_hex n)" "CHR ''<'' \<notin> set (''0x'' @ to_hex n)"
  using number_text_plain(2) [of n] by auto

subsection \<open>Every rendering ends; the scan of the tables\<close>

lemma bind_total:
  assumes "\<exists>r. f = Some r" "\<And>r. \<exists>r'. g r = Some r'"
  shows "\<exists>r'. (f \<bind> g) = Some r'"
  using assms by (cases f) auto

lemma replace_all_total:
  assumes "c \<in> set pat" "c \<notin> set rep" "n = length pat"
  shows "\<exists>r. replace_all pat n rep s = Some r"
  using replace_all_terminates [OF assms(1,2)] assms(3) by simp

lemma replace_rd_total: "\<exists>r. replace_rd st a = Some r"
  unfolding replace_rd_def
  by (cases "reg_values st ''Rd''")
     (auto intro!: bind_total replace_all_total [where c = "CHR ''<''"] simp: register_text_plain)

lemma replace_rn_total: "\<exists>r. replace_rn st a = Some r"
  unfolding replace_rn_def
  by (cases "reg_values st ''Rn''")
     (auto intro!: bind_total replace_all_total [where c = "CHR ''<''"] simp: register_text_plain)

lemma replace_rm_total: "\<exists>r. replace_rm st a = Some r"
  unfolding replace_rm_def
  by (cases "reg_values st ''Rm''")
     (auto intro!: bind_total replace_all_total [where c = "CHR ''<''"] simp: register_text_plain)

lemma replace_rt_total: "\<exists>r. replace_rt st a = Some r"
  unfolding replace_rt_def
  by (cases "reg_values st ''Rt''")
     (auto intro!: bind_total replace_all_total [where c = "CHR ''<''"] simp: register_text_plain)

lemma replace_registers_total: "\<exists>r. replace_registers st a = Some r"
  unfolding replace_registers_def
  by (intro bind_total replace_rd_total replace_rn_total replace_rm_total replace_rt_total)

lemma replace_imm_total: "\<exists>r. replace_imm st a = Some r"
  unfolding replace_imm_def
  using immediate_text_plain
  by (cases "imm_values st ''imm''")
     (auto intro!: bind_total replace_all_total [where c = "CHR ''<''"])

lemma replace_offs_total: "\<exists>r. replace_offs st a = Some r"
  unfolding replace_offs_def
  using immediate_text_plain
  by (cases "imm_values st ''offs''")
     (auto intro!: bind_total replace_all_total [where c = "CHR ''<''"])

lemma handle_shift_total: "\<exists>r. handle_shift st a = Some r"
proof -
  have 1: "\<exists>r. replace_all ''{, <shift>}'' 11 [] s = Some r" for s
    by (rule replace_all_total [where c = "CHR ''<''"]) simp_all
  have 2: "\<exists>r. replace_all ''<shift>'' 7 ''lsl #12'' s = Some r" for s
    by (rule replace_all_total [where c = "CHR ''<''"]) simp_all
  have 3: "\<exists>r. replace_all ''{, '' 3 '', '' s = Some r" for s
    by (rule replace_all_total [where c = "CHR ''{''"]) simp_all
  have 4: "\<exists>r. replace_all ''}'' 1 [] s = Some r" for s
    by (rule replace_all_total [where c = "CHR ''}''"]) simp_all
  have "\<exists>r. (replace_all ''<shift>'' 7 ''lsl #12'' a \<bind> (\<lambda>a1.
               replace_all ''{, '' 3 '', '' a1 \<bind> (\<lambda>a2. replace_all ''}'' 1 [] a2))) = Some r"
    by (intro bind_total 2 3 4)
  then show ?thesis
    unfolding handle_shift_def using 1 [of a] by simp
qed

lemma clean_optional_total: "\<exists>r. clean_optional a = Some r"
  unfolding clean_optional_def
  by (intro bind_total replace_all_total [where c = "CHR ''<''"]) simp_all

lemma finish_total: "\<exists>r. finish st a = Some r"
  unfolding finish_def
  by (intro bind_total replace_imm_total replace_offs_total handle_shift_total clean_optional_total)
     simp

lemma build_assembly_total: "\<exists>r. build_assembly tmpl opcode bf = Some r"
  unfolding build_assembly_def
  by (intro bind_total replace_registers_total finish_total)

lemma build_assembly_rendered:
  "build_assembly (asm_template enc) opcode (bit_fields enc) = Some (rendered opcode enc)"
  using build_assembly_total [of "asm_template enc" opcode "bit_fields enc"]
  by (auto simp: rendered_def)

lemma scan_array_eq:
  "scan_array opcode encs st =
     Some (fst st @ concat (map (\<lambda>enc. rendered opcode enc @ endl) (matching opcode encs)),
           snd st \<or> matching opcode encs \<noteq> [])"
  by (induction encs arbitrary: st) (simp_all add: matching_def build_assembly_rendered)

lemma scan_arrays_eq:
  "scan_arrays opcode arrays st =
     Some (fst st @ concat (map (\<lambda>enc. rendered opcode enc @ endl) (matching opcode (concat arrays))),
           snd st \<or> matching opcode (concat arrays) \<noteq> [])"
  by (induction arrays arbitrary: st) (auto simp: scan_array_eq matching_def)

text \<open>The digits written for a number denote that number.\<close>

lemma digits_value_snoc: "digits_value b (ds @ [c]) = b * digits_value b ds + digit_val c"
  by (simp add: digits_value_def)

lemma digits_value_single: "digits_value b [c] = digit_val c"
  by (simp add: digits_value_def)

lemma digit_val_digit_char: "d < 16 \<Longrightarrow> digit_val (digit_char d) = d"
proof -
  assume "d < 16"
  then have "d = 0 \<or> d = 1 \<or> d = 2 \<or> d = 3 \<or> d = 4 \<or> d = 5 \<or> d = 6 \<or> d = 7 \<or> d = 8
      \<or> d = 9 \<or> d = 10 \<or> d = 11 \<or> d = 12 \<or> d = 13 \<or> d = 14 \<or> d = 15"
    by arith
  then show ?thesis
    by (elim disjE; simp add: digit_val_def digit_char_def)
qed

lemma digits_value_digits_of:
  "2 \<le> b \<Longrightarrow> b \<le> 16 \<Longrightarrow> digits_value b (digits_of b n) = n"
proof (induction b n rule: digits_of.induct)
  case (1 b n)
  show ?case
  proof (cases "n < b")
    case True
    then have "digits_of b n = [digit_char n]" by (subst digits_of.simps) simp
    moreover have "n < 16" using True "1.prems" by simp
    ultimately show ?thesis by (simp add: digits_value_single digit_val_digit_char)
  next
    case False
    then have eq: "digits_of b n = digits_of b (n div b) @ [digit_char (n mod b)]"
      using "1.prems" by (subst digits_of.simps) simp
    have "n mod b < b" using "1.prems" by simp
    then have "n mod b < 16" using "1.prems"(2) by (rule less_le_trans)
    moreover have "digits_value b (digits_of b (n div b)) = n div b"
      using "1.IH" False "1.prems" by simp
    ultimately show ?thesis
      unfolding eq by (simp add: digits_value_snoc digit_val_digit_char)
  qed
qed

lemma length_digits_of:
  "2 \<le> b \<Longrightarrow> n < b ^ Suc k \<Longrightarrow> length (digits_of b n) \<le> Suc k"
proof (induction b n arbitrary: k rule: digits_of.induct)
  case (1 b n)
  show ?case
  proof (cases "n < b")
    case True
    then have "digits_of b n = [digit_char n]" by (subst digits_of.simps) simp
    then show ?thesis by simp
  next
    case False
    then have eq: "digits_of b n = digits_of b (n div b) @ [digit_char (n mod b)]"
      using "1.prems" by (subst digits_of.simps) simp
    obtain j where k: "k = Suc j"
      using False "1.prems" by (cases k) auto
    have "n div b < b ^ Suc j"
      using "1.prems"(2) "1.prems"(1) unfolding k
      by (simp add: less_mult_imp_div_less mult.commute)
    then have "length (digits_of b (n div b)) \<le> Suc j"
      using "1.IH" [of j] False "1.prems"(1) by simp
    then show ?thesis unfolding eq k by simp
  qed
qed

lemma digits_value_leading_zeros:
  "digits_value b (replicate k CHR ''0'' @ ds) = digits_value b ds"
proof -
  have z: "digit_val CHR ''0'' = 0" by (simp add: digit_val_def)
  have "foldl (\<lambda>acc c. b * acc + digit_val c) 0 (replicate k CHR ''0'') = 0"
    by (induction k) (simp_all add: z)
  then show ?thesis by (simp add: digits_value_def)
qed

lemma hex8_props:
  "length (hex8 v) = 8" "set (hex8 v) \<subseteq> set ''0123456789abcdef''" "digits_value 16 (hex8 v) = unat v"
proof -
  have "unat v < 2 ^ 32" using unsigned_less [of v] by simp
  then have "unat v < 16 ^ Suc 7" by simp
  then have l: "length (to_hex (unat v)) \<le> 8"
    using length_digits_of [of 16 "unat v" 7] by (simp add: to_hex_def)
  then show "length (hex8 v) = 8" by (simp add: hex8_def)
  show "set (hex8 v) \<subseteq> set ''0123456789abcdef''"
    using number_text_chars(2) [of "unat v"] by (auto simp: hex8_def)
  show "digits_value 16 (hex8 v) = unat v"
    by (simp add: hex8_def digits_value_leading_zeros to_hex_def digits_value_digits_of)
qed

text \<open>
  C1. An encoding is rendered exactly when \<open>opcode AND fixed_mask = fixed_bits\<close>. Every
  encoding of every table is tested, in table order; each one that matches is rendered (the
  rendering always ends) and its line, ended by a newline, is written to standard output, one
  line for each match and in the same order. When nothing matches, nothing is written to
  standard output and the run writes the line
  "No matching instruction found for opcode: 0x" followed by the opcode as eight lower-case
  hexadecimal digits to standard error; in both cases the function returns normally.
\<close>

theorem decoder_emits_every_match:
  "\<exists>lines.
     map (\<lambda>enc. build_assembly (asm_template enc) opcode (bit_fields enc))
       (filter (\<lambda>enc. opcode AND fixed_mask enc = fixed_bits enc) (concat encoding_arrays))
     = map Some lines
     \<and> query_by_opcode encoding_arrays opcode =
         Some (concat (map (\<lambda>line. line @ [CHR 0x0A]) lines),
               if lines = []
               then ''No matching instruction found for opcode: 0x'' @ hex8 opcode @ [CHR 0x0A]
               else [])
     \<and> length (hex8 opcode) = 8
     \<and> set (hex8 opcode) \<subseteq> set ''0123456789abcdef''
     \<and> digits_value 16 (hex8 opcode) = unat opcode"
proof -
  let ?ms = "matching opcode (concat encoding_arrays)"
  let ?lines = "map (rendered opcode) ?ms"
  have 1: "map (\<lambda>enc. build_assembly (asm_template enc) opcode (bit_fields enc)) ?ms = map Some ?lines"
    by (simp add: build_assembly_rendered)
  have 2: "query_by_opcode encoding_arrays opcode =
         Some (concat (map (\<lambda>line. line @ [CHR 0x0A]) ?lines),
               if ?lines = []
               then ''No matching instruction found for opcode: 0x'' @ hex8 opcode @ [CHR 0x0A]
               else [])"
    by (simp add: query_by_opcode_def scan_arrays_eq comp_def no_match_message_def endl_def)
  show ?thesis
    using 1 2 hex8_props [of opcode] unfolding matching_def by blast
qed


subsection \<open>The value of a field\<close>

lemma test_bit_eq: "(drop_bit n (w :: u32) AND 1 \<noteq> 0) = bit w n"
  by (simp add: and_one_eq bit_iff_odd_drop_bit odd_iff_mod_2_eq_one)

lemma bit_field_value_upto:
  assumes "k \<le> length bits" "length bits \<le> 32"
  shows "bit (foldl (value_step opcode bits) 0 [0..<k]) j
           \<longleftrightarrow> length bits - k \<le> j \<and> j < length bits \<and> bit opcode (bits ! (length bits - 1 - j))"
  using assms(1)
proof (induction k)
  case 0
  then show ?case by simp
next
  case (Suc k)
  let ?n = "length bits"
  have k: "k < ?n" using Suc.prems by simp
  have ih: "bit (foldl (value_step opcode bits) 0 [0..<k]) j
           \<longleftrightarrow> ?n - k \<le> j \<and> j < ?n \<and> bit opcode (bits ! (?n - 1 - j))"
    using Suc by simp
  have w: "bit (2 ^ (?n - Suc k) :: u32) j \<longleftrightarrow> j = ?n - 1 - k"
    using k assms(2) by (auto simp: bit_push_bit_iff bit_1_iff bit_exp_iff)
  show ?case
  proof (cases "bit opcode (bits ! k)")
    case True
    then have "bit (foldl (value_step opcode bits) 0 [0..<Suc k]) j
       \<longleftrightarrow> bit (foldl (value_step opcode bits) 0 [0..<k]) j \<or> j = ?n - 1 - k"
      by (simp add: value_step_def test_bit_eq bit_or_iff w)
    also have "\<dots> \<longleftrightarrow> ?n - Suc k \<le> j \<and> j < ?n \<and> bit opcode (bits ! (?n - 1 - j))"
    proof (cases "j = ?n - 1 - k")
      case True
      then have "?n - 1 - j = k" using k by simp
      then show ?thesis using True \<open>bit opcode (bits ! k)\<close> k by simp
    next
      case False
      then show ?thesis using ih k by auto
    qed
    finally show ?thesis .
  next
    case False
    then have "bit (foldl (value_step opcode bits) 0 [0..<Suc k]) j
       \<longleftrightarrow> bit (foldl (value_step opcode bits) 0 [0..<k]) j"
      by (simp add: value_step_def test_bit_eq)
    also have "\<dots> \<longleftrightarrow> ?n - Suc k \<le> j \<and> j < ?n \<and> bit opcode (bits ! (?n - 1 - j))"
    proof (cases "j = ?n - 1 - k")
      case True
      then have "?n - 1 - j = k" using k by simp
      then show ?thesis using True \<open>\<not> bit opcode (bits ! k)\<close> k ih by auto
    next
      case False
      then show ?thesis using ih k by auto
    qed
    finally show ?thesis .
  qed
qed

lemma bit_field_value:
  assumes "length bits \<le> 32"
  shows "bit (field_value opcode bits) j
           \<longleftrightarrow> j < length bits \<and> bit opcode (bits ! (length bits - 1 - j))"
  using bit_field_value_upto [OF order_refl assms, of opcode j] by (simp add: field_value_def)

lemma field_value_horner:
  assumes "length bits \<le> 32"
  shows "field_value opcode bits = horner_sum of_bool 2 (rev (map (bit opcode) bits))"
proof (rule bit_eqI)
  fix j
  show "bit (field_value opcode bits) j
          \<longleftrightarrow> bit (horner_sum of_bool (2 :: u32) (rev (map (bit opcode) bits))) j"
    using assms
    by (auto simp: bit_field_value [OF assms] bit_horner_sum_bit_word_iff rev_nth)
qed

lemma field_value_sum:
  assumes "length bits \<le> 32"
  shows "field_value opcode bits =
           (\<Sum>i<length bits. of_bool (bit opcode (bits ! i)) * 2 ^ (length bits - 1 - i))"
proof -
  let ?n = "length bits"
  have "field_value opcode bits =
          (\<Sum>m<?n. of_bool (rev (map (bit opcode) bits) ! m) * 2 ^ m)"
    by (simp add: field_value_horner [OF assms] horner_sum_eq_sum lessThan_atLeast0)
  also have "\<dots> = (\<Sum>m<?n. of_bool (bit opcode (bits ! (?n - Suc m))) * 2 ^ m)"
    by (rule sum.cong) (simp_all add: rev_nth)
  also have "\<dots> = (\<Sum>i<?n. of_bool (bit opcode (bits ! i)) * 2 ^ (?n - 1 - i))"
    by (rule sum.reindex_bij_witness [where i = "\<lambda>i. ?n - Suc i" and j = "\<lambda>m. ?n - Suc m"]) auto
  finally show ?thesis .
qed


lemma weights_bound:
  "(\<Sum>i<n. (if b i then 2 ^ (n - 1 - i) else 0) :: nat) < 2 ^ n"
proof -
  have "(\<Sum>i<n. (if b i then 2 ^ (n - 1 - i) else 0) :: nat) \<le> (\<Sum>i<n. 2 ^ (n - 1 - i))"
    by (rule sum_mono) simp
  also have "\<dots> = (\<Sum>m<n. 2 ^ m)"
    by (rule sum.reindex_bij_witness [where i = "\<lambda>i. n - Suc i" and j = "\<lambda>m. n - Suc m"]) auto
  also have "\<dots> = 2 ^ n - 1"
    by (simp add: sum_power2 lessThan_atLeast0)
  finally show ?thesis
    by (simp add: order.strict_trans1)
qed

lemma unat_field_value:
  assumes "length bits \<le> 32"
  shows "unat (field_value opcode bits) =
           (\<Sum>i<length bits. if bit opcode (bits ! i) then 2 ^ (length bits - 1 - i) else 0)"
proof -
  let ?S = "\<Sum>i<length bits. (if bit opcode (bits ! i) then 2 ^ (length bits - 1 - i) else 0) :: nat"
  have "field_value opcode bits = of_nat ?S"
    unfolding field_value_sum [OF assms] of_nat_sum
    by (rule sum.cong) simp_all
  moreover have "?S < 2 ^ 32"
    using weights_bound [where n = "length bits" and b = "\<lambda>i. bit opcode (bits ! i)"] assms
    by (meson less_le_trans one_le_numeral power_increasing)
  ultimately show ?thesis
    by (simp add: unat_of_nat del: of_nat_sum)
qed

subsection \<open>The positions of a field\<close>

lemma push_back_keys: "fst ` set (push_back k v m) = insert k (fst ` set m)"
proof (induction m)
  case Nil
  then show ?case by simp
next
  case (Cons e m)
  obtain k' vs where e: "e = (k', vs)" by (cases e)
  show ?case
    unfolding e using Cons.IH by (simp add: insert_commute)
qed

lemma push_back_sorted:
  "sorted_wrt (<) (map fst m) \<Longrightarrow> sorted_wrt (<) (map fst (push_back k v m))"
proof (induction m)
  case Nil
  then show ?case by simp
next
  case (Cons e m)
  obtain k' vs where e: "e = (k', vs)" by (cases e)
  from Cons.prems have above: "\<forall>x\<in>set m. k' < fst x" and s: "sorted_wrt (<) (map fst m)"
    by (simp_all add: e)
  have ih: "sorted_wrt (<) (map fst (push_back k v m))" by (rule Cons.IH [OF s])
  show ?case
  proof (cases "k = k'")
    case True
    then show ?thesis using Cons.prems by (simp add: e)
  next
    case False
    show ?thesis
    proof (cases "k < k'")
      case True
      then have "\<forall>x\<in>set m. k < fst x" using above by (auto dest: less_trans)
      then show ?thesis using True False above s by (simp add: e)
    next
      case nl: False
      then have "k' < k" using False by simp
      moreover have "\<forall>x\<in>set (push_back k v m). k' < fst x"
      proof
        fix x assume "x \<in> set (push_back k v m)"
        then have "fst x \<in> insert k (fst ` set m)" using push_back_keys [of k v m] by blast
        then show "k' < fst x" using \<open>k' < k\<close> above by auto
      qed
      ultimately show ?thesis using nl False ih by (simp add: e)
    qed
  qed
qed

lemma push_back_map_of:
  "sorted_wrt (<) (map fst m) \<Longrightarrow>
   map_of (push_back k v m) = (map_of m)(k \<mapsto> (case map_of m k of None \<Rightarrow> [] | Some vs \<Rightarrow> vs) @ [v])"
proof (induction m)
  case Nil
  then show ?case by simp
next
  case (Cons e m)
  obtain k' vs where e: "e = (k', vs)" by (cases e)
  from Cons.prems have above: "\<forall>x\<in>set m. k' < fst x" and s: "sorted_wrt (<) (map fst m)"
    by (simp_all add: e)
  show ?case
  proof (cases "k = k'")
    case True
    then show ?thesis by (auto simp: e)
  next
    case False
    show ?thesis
    proof (cases "k < k'")
      case True
      then have "k \<notin> fst ` set m" using above by (auto dest: less_trans)
      then have "map_of m k = None" by (simp add: map_of_eq_None_iff)
      then show ?thesis using True False by (auto simp: e)
    next
      case nl: False
      then show ?thesis using False Cons.IH [OF s] by (auto simp: e)
    qed
  qed
qed

lemma collect_upto:
  "sorted_wrt (<) (map fst (foldl (collect_step bf) [] [0..<k]))
   \<and> (\<forall>f. map_of (foldl (collect_step bf) [] [0..<k]) f =
          (if f \<noteq> ''0'' \<and> f \<noteq> ''1'' \<and> (\<exists>i<k. bf ! i = f) then Some (labelled bf k f) else None))"
proof (induction k)
  case 0
  then show ?case by simp
next
  case (Suc k)
  let ?fb = "foldl (collect_step bf) [] [0..<k]"
  from Suc have s: "sorted_wrt (<) (map fst ?fb)"
    and m: "\<And>f. map_of ?fb f =
          (if f \<noteq> ''0'' \<and> f \<noteq> ''1'' \<and> (\<exists>i<k. bf ! i = f) then Some (labelled bf k f) else None)"
    by simp_all
  have step: "foldl (collect_step bf) [] [0..<Suc k] = collect_step bf ?fb k" by simp
  show ?case
  proof (cases "bf ! k \<noteq> ''0'' \<and> bf ! k \<noteq> ''1''")
    case False
    then have same: "collect_step bf ?fb k = ?fb" by (auto simp: collect_step_def)
    have "\<And>f. f \<noteq> ''0'' \<and> f \<noteq> ''1'' \<Longrightarrow> (\<exists>i<Suc k. bf ! i = f) = (\<exists>i<k. bf ! i = f)"
      using False less_Suc_eq by auto
    moreover have "\<And>f. f \<noteq> ''0'' \<and> f \<noteq> ''1'' \<Longrightarrow> labelled bf (Suc k) f = labelled bf k f"
      using False by (auto simp: labelled_def)
    ultimately show ?thesis
      unfolding step same using s m by auto
  next
    case True
    then have new: "collect_step bf ?fb k = push_back (bf ! k) (31 - k) ?fb"
      by (simp add: collect_step_def)
    have "map_of (push_back (bf ! k) (31 - k) ?fb) f =
          (if f \<noteq> ''0'' \<and> f \<noteq> ''1'' \<and> (\<exists>i<Suc k. bf ! i = f) then Some (labelled bf (Suc k) f) else None)"
      for f
    proof (cases "f = bf ! k")
      case True
      then show ?thesis
        using \<open>bf ! k \<noteq> ''0'' \<and> bf ! k \<noteq> ''1''\<close>
        by (auto simp: push_back_map_of [OF s] m labelled_def)
    next
      case False
      then have "(\<exists>i<Suc k. bf ! i = f) = (\<exists>i<k. bf ! i = f)"
        using less_Suc_eq by auto
      moreover have "labelled bf (Suc k) f = labelled bf k f"
        using False by (auto simp: labelled_def)
      ultimately show ?thesis
        using False by (simp add: push_back_map_of [OF s] m)
    qed
    then show ?thesis
      unfolding step new using push_back_sorted [OF s] by blast
  qed
qed

lemma collect_field_bits_sorted: "sorted_wrt (<) (map fst (collect_field_bits bf))"
  using collect_upto [of bf 32] by (simp add: collect_field_bits_def)

lemma collect_field_bits_map_of:
  assumes "length bf = 32"
  shows "map_of (collect_field_bits bf) f =
           (if f \<noteq> ''0'' \<and> f \<noteq> ''1'' \<and> f \<in> set bf then Some (bit_positions bf f) else None)"
proof -
  have "(\<exists>i<32. bf ! i = f) = (f \<in> set bf)"
    using assms by (auto simp: in_set_conv_nth)
  then show ?thesis
    using collect_upto [of bf 32]
    by (simp add: collect_field_bits_def labelled_def bit_positions_def)
qed

lemma bit_positions_length: "length (bit_positions bf f) \<le> 32"
proof -
  have "length (filter (\<lambda>i. bf ! i = f) [0..<32]) \<le> length [0..<32]"
    by (rule length_filter_le)
  then show ?thesis by (simp add: bit_positions_def)
qed



lemma labelled_decreasing:
  assumes "k \<le> 32"
  shows "sorted_wrt (>) (labelled bf k f)"
proof -
  let ?xs = "filter (\<lambda>i. bf ! i = f) [0..<k]"
  have 1: "sorted_wrt (<) ?xs"
    by (intro sorted_wrt_filter) simp
  have 2: "\<And>x y. x \<in> set ?xs \<Longrightarrow> y \<in> set ?xs \<Longrightarrow> x < y \<Longrightarrow> 31 - y < 31 - x"
    using assms by auto
  have "sorted_wrt (\<lambda>x y. 31 - y < 31 - x) ?xs"
    by (rule sorted_wrt_mono_rel [OF 2 1])
  then show ?thesis
    by (simp add: labelled_def sorted_wrt_map)
qed

lemma bit_positions_decreasing: "sorted_wrt (>) (bit_positions bf f)"
  using labelled_decreasing [of 32 bf f] by (simp only: labelled_def bit_positions_def)


subsection \<open>Categorising the values\<close>

lemma store_field_imm:
  "imm_values (store_field n v st) ''imm'' = (if take 3 n = ''imm'' then Some v else imm_values st ''imm'')"
  by (auto simp: store_field_def)

lemma store_field_crm:
  "has_crm (store_field n v st) = (has_crm st \<or> n = ''CRm'')"
  "crm_value (store_field n v st) = (if n = ''CRm'' then v else crm_value st)"
  by (auto simp: store_field_def)

lemma store_field_op2:
  "has_op2 (store_field n v st) = (has_op2 st \<or> n = ''op2'')"
  "op2_value (store_field n v st) = (if n = ''op2'' then v else op2_value st)"
  by (auto simp: store_field_def)

lemma store_all_snoc:
  "store_all opcode st (fb @ [p]) = store_field (fst p) (field_value opcode (snd p)) (store_all opcode st fb)"
  by (simp add: store_all_def)

lemma store_all_has:
  "has_crm (store_all opcode st fb) = (has_crm st \<or> ''CRm'' \<in> fst ` set fb)"
  "has_op2 (store_all opcode st fb) = (has_op2 st \<or> ''op2'' \<in> fst ` set fb)"
  by (induction fb rule: rev_induct) (auto simp: store_all_snoc store_field_crm store_field_op2 store_all_def)

lemma store_all_crm:
  assumes "distinct (map fst fb)" "map_of fb ''CRm'' = Some bits"
  shows "crm_value (store_all opcode st fb) = field_value opcode bits"
  using assms
proof (induction fb rule: rev_induct)
  case Nil
  then show ?case by simp
next
  case (snoc p fb)
  show ?case
  proof (cases "fst p = ''CRm''")
    case True
    then have "''CRm'' \<notin> fst ` set fb" using snoc.prems(1) by auto
    then have "map_of fb ''CRm'' = None" by (simp add: map_of_eq_None_iff)
    then have "snd p = bits" using snoc.prems(2) True by (cases p) (simp add: map_add_def)
    then show ?thesis using True by (simp add: store_all_snoc store_field_crm)
  next
    case False
    then have "map_of fb ''CRm'' = Some bits"
      using snoc.prems(2) by (cases p) (auto simp: map_add_def split: option.splits)
    then show ?thesis using False snoc by (simp add: store_all_snoc store_field_crm)
  qed
qed

lemma store_all_op2:
  assumes "distinct (map fst fb)" "map_of fb ''op2'' = Some bits"
  shows "op2_value (store_all opcode st fb) = field_value opcode bits"
  using assms
proof (induction fb rule: rev_induct)
  case Nil
  then show ?case by simp
next
  case (snoc p fb)
  show ?case
  proof (cases "fst p = ''op2''")
    case True
    then have "''op2'' \<notin> fst ` set fb" using snoc.prems(1) by auto
    then have "map_of fb ''op2'' = None" by (simp add: map_of_eq_None_iff)
    then have "snd p = bits" using snoc.prems(2) True by (cases p) (simp add: map_add_def)
    then show ?thesis using True by (simp add: store_all_snoc store_field_op2)
  next
    case False
    then have "map_of fb ''op2'' = Some bits"
      using snoc.prems(2) by (cases p) (auto simp: map_add_def split: option.splits)
    then show ?thesis using False snoc by (simp add: store_all_snoc store_field_op2)
  qed
qed

lemma store_all_no_imm:
  "\<forall>p\<in>set fb. take 3 (fst p) \<noteq> ''imm'' \<Longrightarrow>
   imm_values (store_all opcode st fb) ''imm'' = imm_values st ''imm''"
  by (induction fb rule: rev_induct) (simp_all add: store_all_snoc store_field_imm store_all_def)

lemma store_all_some_imm:
  "\<exists>p\<in>set fb. take 3 (fst p) = ''imm'' \<Longrightarrow>
   \<exists>p\<in>set fb. take 3 (fst p) = ''imm''
      \<and> imm_values (store_all opcode st fb) ''imm'' = Some (field_value opcode (snd p))"
proof (induction fb rule: rev_induct)
  case Nil
  then show ?case by simp
next
  case (snoc p fb)
  show ?case
  proof (cases "take 3 (fst p) = ''imm''")
    case True
    then show ?thesis by (auto simp: store_all_snoc store_field_imm)
  next
    case False
    with snoc.prems have "\<exists>q\<in>set fb. take 3 (fst q) = ''imm''" by auto
    from snoc.IH [OF this] obtain q where "q \<in> set fb" "take 3 (fst q) = ''imm''"
      "imm_values (store_all opcode st fb) ''imm'' = Some (field_value opcode (snd q))" by blast
    then show ?thesis using False by (auto simp: store_all_snoc store_field_imm)
  qed
qed

lemma extract_values_store_all: "extract_values opcode fb = store_all opcode initial_operands fb"
  by (simp add: extract_values_def store_all_def)

lemma collect_field_bits_distinct: "distinct (map fst (collect_field_bits bf))"
  using collect_field_bits_sorted [of bf] by (simp add: strict_sorted_iff)

lemma collect_field_bits_entry:
  assumes "length bf = 32"
  shows "p \<in> set (collect_field_bits bf) \<longleftrightarrow>
           fst p \<noteq> ''0'' \<and> fst p \<noteq> ''1'' \<and> fst p \<in> set bf \<and> snd p = bit_positions bf (fst p)"
proof -
  have "p \<in> set (collect_field_bits bf) \<longleftrightarrow> map_of (collect_field_bits bf) (fst p) = Some (snd p)"
    using collect_field_bits_distinct [of bf] by (cases p) simp
  then show ?thesis
    by (auto simp: collect_field_bits_map_of [OF assms])
qed

lemma collect_field_bits_keys:
  assumes "length bf = 32"
  shows "f \<in> fst ` set (collect_field_bits bf) \<longleftrightarrow> f \<noteq> ''0'' \<and> f \<noteq> ''1'' \<and> f \<in> set bf"
proof -
  have "f \<in> fst ` set (collect_field_bits bf) \<longleftrightarrow> map_of (collect_field_bits bf) f \<noteq> None"
    by (simp add: map_of_eq_None_iff)
  then show ?thesis by (simp add: collect_field_bits_map_of [OF assms])
qed

subsection \<open>What the extraction stores\<close>

lemma store_field_reg:
  assumes "f \<in> {''Rd'', ''Rn'', ''Rm'', ''Rt''}"
  shows "reg_values (store_field n v st) f = (if n = f then Some v else reg_values st f)"
  using assms by (auto simp: store_field_def)

lemma store_field_shift:
  "(if has_shift (store_field n v st) then Some (shift_value (store_field n v st)) else None) =
     (if n = ''sh'' then Some v else if has_shift st then Some (shift_value st) else None)"
  by (auto simp: store_field_def)

lemma store_field_crm_opt:
  "(if has_crm (store_field n v st) then Some (crm_value (store_field n v st)) else None) =
     (if n = ''CRm'' then Some v else if has_crm st then Some (crm_value st) else None)"
  by (auto simp: store_field_def)

lemma store_field_op2_opt:
  "(if has_op2 (store_field n v st) then Some (op2_value (store_field n v st)) else None) =
     (if n = ''op2'' then Some v else if has_op2 st then Some (op2_value st) else None)"
  by (auto simp: store_field_def)

lemma store_field_offs:
  "imm_values (store_field n v st) ''offs'' =
     (if take 3 n = ''off'' \<or> n = ''simm'' then Some v else imm_values st ''offs'')"
  by (auto simp: store_field_def)

lemma store_all_last:
  assumes obs: "\<And>n v st. obs (store_field n v st) = (if P n then Some v else obs st)"
  shows "sorted_wrt (<) (map fst fb) \<Longrightarrow> (f, bits) \<in> set fb \<Longrightarrow> P f \<Longrightarrow>
         \<forall>p\<in>set fb. P (fst p) \<longrightarrow> fst p \<le> f \<Longrightarrow>
         obs (store_all opcode st fb) = Some (field_value opcode bits)"
proof (induction fb rule: rev_induct)
  case Nil
  then show ?case by simp
next
  case (snoc p fb)
  from snoc.prems(1) have s: "sorted_wrt (<) (map fst fb)" and above: "\<forall>x\<in>set fb. fst x < fst p"
    by (simp_all add: sorted_wrt_append)
  show ?case
  proof (cases "p = (f, bits)")
    case True
    then show ?thesis using snoc.prems(3) by (simp add: store_all_snoc obs)
  next
    case False
    then have mem: "(f, bits) \<in> set fb" using snoc.prems(2) by auto
    then have "f < fst p" using above by force
    then have "\<not> P (fst p)" using snoc.prems(4) by auto
    moreover have "obs (store_all opcode st fb) = Some (field_value opcode bits)"
      using snoc.IH [OF s mem snoc.prems(3)] snoc.prems(4) by simp
    ultimately show ?thesis by (simp add: store_all_snoc obs)
  qed
qed

lemma combine_hint_keeps:
  "reg_values (combine_hint st) = reg_values st"
  "has_shift (combine_hint st) = has_shift st" "shift_value (combine_hint st) = shift_value st"
  "has_crm (combine_hint st) = has_crm st" "crm_value (combine_hint st) = crm_value st"
  "has_op2 (combine_hint st) = has_op2 st" "op2_value (combine_hint st) = op2_value st"
  "imm_values (combine_hint st) ''offs'' = imm_values st ''offs''"
  "imm_values st ''imm'' = Some v \<Longrightarrow> imm_values (combine_hint st) ''imm'' = Some v"
  by (simp_all add: combine_hint_def)

lemma operands_of_last:
  assumes obs: "\<And>n v st. obs (store_field n v st) = (if P n then Some v else obs st)"
    and len: "length bf = 32" and f: "f \<in> set bf" "f \<noteq> ''0''" "f \<noteq> ''1''" and P: "P f"
    and last: "\<forall>g\<in>set bf. g \<noteq> ''0'' \<and> g \<noteq> ''1'' \<and> P g \<longrightarrow> g \<le> f"
  shows "obs (extract_values opcode (collect_field_bits bf)) =
           Some (field_value opcode (bit_positions bf f))"
proof -
  have mem: "(f, bit_positions bf f) \<in> set (collect_field_bits bf)"
    using f by (simp add: collect_field_bits_entry [OF len])
  have "\<forall>p\<in>set (collect_field_bits bf). P (fst p) \<longrightarrow> fst p \<le> f"
    using last by (auto simp: collect_field_bits_entry [OF len])
  from store_all_last [of obs P, OF obs collect_field_bits_sorted mem P this]
  show ?thesis by (simp add: extract_values_store_all)
qed

text \<open>
  C2. Scanning the 32 labels from bit 31 down to bit 0 files every position under its label
  (the labels "0" and "1" apart), in the order met, so the positions of a field decrease and
  the first is its most significant bit. The value of the field gives the first position the
  weight \<open>2 ^ (n - 1)\<close>, the next one \<open>2 ^ (n - 2)\<close>, down to \<open>2 ^ 0\<close> for the last,
  whether or not the positions are adjacent. This value is what the extraction stores for
  the renderer: under the field's own name for Rd, Rn, Rm and Rt, as the shift for sh, as
  CRm and op2 for these two, and, for the last field in key order among those whose name
  begins with "imm" (with "off", or is "simm"), as the immediate (the offset).
\<close>

theorem field_values_reconstructed:
  assumes "length bf = 32" "f \<in> set bf" "f \<noteq> ''0''" "f \<noteq> ''1''"
  shows "map_of (collect_field_bits bf) f = Some (bit_positions bf f)
       \<and> bit_positions bf f = map (\<lambda>i. 31 - i) (filter (\<lambda>i. bf ! i = f) [0..<32])
       \<and> sorted_wrt (>) (bit_positions bf f)
       \<and> unat (field_value opcode (bit_positions bf f)) =
           (\<Sum>i<length (bit_positions bf f).
              if bit opcode (bit_positions bf f ! i)
              then 2 ^ (length (bit_positions bf f) - 1 - i) else 0)
       \<and> (f \<in> {''Rd'', ''Rn'', ''Rm'', ''Rt''} \<longrightarrow>
            reg_values (operands_of opcode bf) f = Some (field_value opcode (bit_positions bf f)))
       \<and> (f = ''sh'' \<longrightarrow>
            has_shift (operands_of opcode bf)
            \<and> shift_value (operands_of opcode bf) = field_value opcode (bit_positions bf f))
       \<and> (f = ''CRm'' \<longrightarrow>
            has_crm (operands_of opcode bf)
            \<and> crm_value (operands_of opcode bf) = field_value opcode (bit_positions bf f))
       \<and> (f = ''op2'' \<longrightarrow>
            has_op2 (operands_of opcode bf)
            \<and> op2_value (operands_of opcode bf) = field_value opcode (bit_positions bf f))
       \<and> (take 3 f = ''imm'' \<and> (\<forall>g\<in>set bf. take 3 g = ''imm'' \<longrightarrow> g \<le> f) \<longrightarrow>
            imm_values (operands_of opcode bf) ''imm'' = Some (field_value opcode (bit_positions bf f)))
       \<and> ((take 3 f = ''off'' \<or> f = ''simm'')
            \<and> (\<forall>g\<in>set bf. take 3 g = ''off'' \<or> g = ''simm'' \<longrightarrow> g \<le> f) \<longrightarrow>
            imm_values (operands_of opcode bf) ''offs'' = Some (field_value opcode (bit_positions bf f)))"
proof -
  let ?st = "extract_values opcode (collect_field_bits bf)"
  let ?v = "field_value opcode (bit_positions bf f)"
  note last = operands_of_last [where bf = bf and f = f and opcode = opcode, OF _ assms]
  have p1: "map_of (collect_field_bits bf) f = Some (bit_positions bf f)"
    using assms collect_field_bits_map_of [OF assms(1), of f] by simp
  have p2: "bit_positions bf f = map (\<lambda>i. 31 - i) (filter (\<lambda>i. bf ! i = f) [0..<32])"
    by (simp only: bit_positions_def)
  have p3: "sorted_wrt (>) (bit_positions bf f)"
    by (rule bit_positions_decreasing)
  have p4: "unat ?v =
           (\<Sum>i<length (bit_positions bf f).
              if bit opcode (bit_positions bf f ! i)
              then 2 ^ (length (bit_positions bf f) - 1 - i) else 0)"
    by (rule unat_field_value [OF bit_positions_length])
  have p5: "reg_values (operands_of opcode bf) f = Some ?v" if "f \<in> {''Rd'', ''Rn'', ''Rm'', ''Rt''}"
  proof -
    have "reg_values ?st f = Some ?v"
      by (rule last [where obs = "\<lambda>st. reg_values st f" and P = "\<lambda>n. n = f"])
         (simp_all add: store_field_reg [OF that])
    then show ?thesis by (simp add: operands_of_def combine_hint_keeps)
  qed
  have p6: "has_shift (operands_of opcode bf) \<and> shift_value (operands_of opcode bf) = ?v"
    if "f = ''sh''"
  proof -
    have "(if has_shift ?st then Some (shift_value ?st) else None) = Some ?v"
      by (rule last [where obs = "\<lambda>st. if has_shift st then Some (shift_value st) else None"
            and P = "\<lambda>n. n = ''sh''"])
         (simp_all add: store_field_shift that)
    then show ?thesis by (simp add: operands_of_def combine_hint_keeps split: if_splits)
  qed
  have p7: "has_crm (operands_of opcode bf) \<and> crm_value (operands_of opcode bf) = ?v"
    if "f = ''CRm''"
  proof -
    have "(if has_crm ?st then Some (crm_value ?st) else None) = Some ?v"
      by (rule last [where obs = "\<lambda>st. if has_crm st then Some (crm_value st) else None"
            and P = "\<lambda>n. n = ''CRm''"])
         (simp_all add: store_field_crm_opt that)
    then show ?thesis by (simp add: operands_of_def combine_hint_keeps split: if_splits)
  qed
  have p8: "has_op2 (operands_of opcode bf) \<and> op2_value (operands_of opcode bf) = ?v"
    if "f = ''op2''"
  proof -
    have "(if has_op2 ?st then Some (op2_value ?st) else None) = Some ?v"
      by (rule last [where obs = "\<lambda>st. if has_op2 st then Some (op2_value st) else None"
            and P = "\<lambda>n. n = ''op2''"])
         (simp_all add: store_field_op2_opt that)
    then show ?thesis by (simp add: operands_of_def combine_hint_keeps split: if_splits)
  qed
  have p9: "imm_values (operands_of opcode bf) ''imm'' = Some ?v"
    if "take 3 f = ''imm'' \<and> (\<forall>g\<in>set bf. take 3 g = ''imm'' \<longrightarrow> g \<le> f)"
  proof -
    have "imm_values ?st ''imm'' = Some ?v"
      by (rule last [where obs = "\<lambda>st. imm_values st ''imm''" and P = "\<lambda>n. take 3 n = ''imm''"])
         (use that in \<open>simp_all add: store_field_imm\<close>)
    then show ?thesis by (simp add: operands_of_def combine_hint_keeps)
  qed
  have p10: "imm_values (operands_of opcode bf) ''offs'' = Some ?v"
    if "(take 3 f = ''off'' \<or> f = ''simm'')
        \<and> (\<forall>g\<in>set bf. take 3 g = ''off'' \<or> g = ''simm'' \<longrightarrow> g \<le> f)"
  proof -
    have "imm_values ?st ''offs'' = Some ?v"
      by (rule last [where obs = "\<lambda>st. imm_values st ''offs''"
            and P = "\<lambda>n. take 3 n = ''off'' \<or> n = ''simm''"])
         (use that in \<open>auto simp: store_field_offs\<close>)
    then show ?thesis by (simp add: operands_of_def combine_hint_keeps)
  qed
  show ?thesis
    using p1 p2 p3 p4 p5 p6 p7 p8 p9 p10 by blast
qed

text \<open>
  C8. For labels that include both CRm and op2: when no label begins with "imm", the value
  rendered for the immediate placeholders is \<open>(CRm << 3) | op2\<close>; when some label begins
  with "imm", it is the value of such a field and the combination is not applied.
\<close>

theorem hint_immediate_from_crm_op2:
  assumes "length bf = 32" "''CRm'' \<in> set bf" "''op2'' \<in> set bf"
  shows "if \<exists>f\<in>set bf. take 3 f = ''imm''
         then \<exists>f\<in>set bf. take 3 f = ''imm''
                \<and> imm_values (operands_of opcode bf) ''imm'' = Some (field_value opcode (bit_positions bf f))
         else imm_values (operands_of opcode bf) ''imm'' =
                Some (push_bit 3 (field_value opcode (bit_positions bf ''CRm''))
                      OR field_value opcode (bit_positions bf ''op2''))"
proof -
  let ?fb = "collect_field_bits bf"
  let ?st = "extract_values opcode ?fb"
  have crm: "has_crm ?st" "crm_value ?st = field_value opcode (bit_positions bf ''CRm'')"
    using assms(2) collect_field_bits_keys [OF assms(1), of "''CRm''"]
      store_all_crm [OF collect_field_bits_distinct, where bf1 = bf
        and bits = "bit_positions bf ''CRm''" and opcode = opcode and st = initial_operands]
    by (simp_all add: extract_values_store_all store_all_has initial_operands_def
          collect_field_bits_map_of [OF assms(1)])
  have op2: "has_op2 ?st" "op2_value ?st = field_value opcode (bit_positions bf ''op2'')"
    using assms(3) collect_field_bits_keys [OF assms(1), of "''op2''"]
      store_all_op2 [OF collect_field_bits_distinct, where bf1 = bf
        and bits = "bit_positions bf ''op2''" and opcode = opcode and st = initial_operands]
    by (simp_all add: extract_values_store_all store_all_has initial_operands_def
          collect_field_bits_map_of [OF assms(1)])
  show ?thesis
  proof (cases "\<exists>f\<in>set bf. take 3 f = ''imm''")
    case True
    then obtain g where g: "g \<in> set bf" "take 3 g = ''imm''" by blast
    then have "g \<noteq> ''0''" "g \<noteq> ''1''" by auto
    then have "(g, bit_positions bf g) \<in> set ?fb"
      using g by (simp add: collect_field_bits_entry [OF assms(1)])
    then have "\<exists>p\<in>set ?fb. take 3 (fst p) = ''imm''" using g(2) by force
    from store_all_some_imm [OF this, of opcode initial_operands]
    obtain p where p: "p \<in> set ?fb" "take 3 (fst p) = ''imm''"
      "imm_values ?st ''imm'' = Some (field_value opcode (snd p))"
      by (auto simp: extract_values_store_all)
    from p(1) have "fst p \<in> set bf" "snd p = bit_positions bf (fst p)"
      by (simp_all add: collect_field_bits_entry [OF assms(1)])
    then have "\<exists>f\<in>set bf. take 3 f = ''imm''
                \<and> imm_values (operands_of opcode bf) ''imm'' = Some (field_value opcode (bit_positions bf f))"
      using p(2,3) by (auto simp: operands_of_def combine_hint_def)
    then show ?thesis using True by simp
  next
    case False
    then have "\<forall>p\<in>set ?fb. take 3 (fst p) \<noteq> ''imm''"
      by (auto simp: collect_field_bits_entry [OF assms(1)])
    then have "imm_values ?st ''imm'' = None"
      using store_all_no_imm [of ?fb opcode initial_operands]
      by (simp add: extract_values_store_all initial_operands_def)
    then show ?thesis
      using False crm op2 by (simp add: operands_of_def combine_hint_def)
  qed
qed

theorem hint_immediate_from_crm_op2_witness:
  "length (bit_fields hint) = 32 \<and> ''CRm'' \<in> set (bit_fields hint) \<and> ''op2'' \<in> set (bit_fields hint)
   \<and> \<not> (\<exists>f\<in>set (bit_fields hint). take 3 f = ''imm'')
   \<and> imm_values (operands_of 0xD50320BF (bit_fields hint)) ''imm'' =
        Some (push_bit 3 (field_value 0xD50320BF (bit_positions (bit_fields hint) ''CRm''))
              OR field_value 0xD50320BF (bit_positions (bit_fields hint) ''op2''))
   \<and> push_bit 3 (field_value 0xD50320BF (bit_positions (bit_fields hint) ''CRm''))
              OR field_value 0xD50320BF (bit_positions (bit_fields hint) ''op2'') = (5 :: u32)
   \<and> build_assembly (asm_template hint) 0xD50320BF (bit_fields hint) = Some ''HINT #0x5''"
proof -
  have h1: "length (bit_fields hint) = 32" by (simp add: hint_def)
  have h2: "''CRm'' \<in> set (bit_fields hint)" by (simp add: hint_def)
  have h3: "''op2'' \<in> set (bit_fields hint)" by (simp add: hint_def)
  have n: "\<not> (\<exists>f\<in>set (bit_fields hint). take 3 f = ''imm'')" by (simp add: hint_def)
  have e1: "push_bit 3 (field_value 0xD50320BF (bit_positions (bit_fields hint) ''CRm''))
              OR field_value 0xD50320BF (bit_positions (bit_fields hint) ''op2'') = (5 :: u32)"
    by code_simp
  have e2: "build_assembly (asm_template hint) 0xD50320BF (bit_fields hint) = Some ''HINT #0x5''"
    by code_simp
  show ?thesis
    using h1 h2 h3 n e1 e2 hint_immediate_from_crm_op2 [OF h1 h2 h3, of "0xD50320BF"]
    by presburger
qed

subsection \<open>The decoder at concrete inputs\<close>

lemmas eval_stoul = parse_opcode_def stoul_def has_hex_prefix_def digit_val_def digits_value_def
  isspace_def ULONG_MAX_def Let_def

lemma replicate_num: "replicate (numeral k) x = x # replicate (pred_numeral k) x"
  by (simp add: numeral_eq_Suc)

text \<open>
  C4 at four literals. Characters after the last valid digit are ignored (\<open>0x12G4\<close> is 0x12,
  \<open>0b102\<close> is 2), a value of more than 32 bits is cut to its low 32 bits (\<open>0x1FFFFFFFF\<close> is
  0xFFFFFFFF), and a literal with no valid digit ends the run with an exception nobody
  catches instead of a diagnostic.
\<close>

theorem parse_opcode_accepts_malformed_literals:
  "parse_opcode ''0x12G4'' = Inr 0x12
   \<and> parse_opcode ''0b102'' = Inr 2
   \<and> parse_opcode ''0x1FFFFFFFF'' = Inr 0xFFFFFFFF
   \<and> parse_opcode ''0xZZ'' = Inl (Inl Invalid_argument)"
  by (simp add: eval_stoul)

text \<open>
  C6 at an opcode that matches no encoding of the example tables: the diagnostic is written
  to standard error and \<open>main\<close> returns 0.
\<close>

theorem no_match_exits_with_zero:
  "isa_main example_encodings [''query_isa'', ''--op'', ''0x00010000''] =
     Some (Inr \<lparr>cout = [],
               cerr = ''No matching instruction found for opcode: 0x00010000'' @ endl,
               ret = 0\<rparr>)"
proof -
  have "parse_opcode ''0x00010000'' = Inr 0x10000" by (simp add: eval_stoul)
  then show ?thesis
    by (simp add: isa_main_def query_by_opcode_def example_encodings_def ENCODINGS_0_def ENCODINGS_1_def
        add_imm_def mov_sp_def
        hint_def no_match_message_def hex8_def to_hex_def digits_of.simps digit_char_def
        replicate_num)
qed

lemma decode_add_zero_immediate:
  "query_by_opcode example_encodings 0x91000000 =
     Some (''ADD x0, x0, #0x0'' @ endl @ ''MOV x0, x0'' @ endl, [])"
  by code_simp

lemma decode_hint:
  "query_by_opcode example_encodings 0xD503201F = Some (''HINT #0x0'' @ endl, [])"
  by code_simp

theorem field_values_reconstructed_witness:
  "length split_labels = 32 \<and> ''imm'' \<in> set split_labels \<and> ''imm'' \<noteq> ''0'' \<and> ''imm'' \<noteq> ''1''
   \<and> ''Rd'' \<in> set split_labels \<and> ''Rd'' \<noteq> ''0'' \<and> ''Rd'' \<noteq> ''1''
   \<and> map_of (collect_field_bits split_labels) ''imm'' =
         Some [30, 29, 23, 22, 21, 20, 19, 18, 17, 16, 15, 14, 13, 12, 11, 10, 9, 8, 7, 6, 5]
   \<and> imm_values (operands_of 0x40000025 split_labels) ''imm'' = Some 0x100001
   \<and> reg_values (operands_of 0x40000025 split_labels) ''Rd'' = Some 5
   \<and> length add_imm_labels = 32 \<and> ''sh'' \<in> set add_imm_labels
   \<and> has_shift (operands_of 0x914007FF add_imm_labels)
   \<and> shift_value (operands_of 0x914007FF add_imm_labels) = 1
   \<and> length (bit_fields hint) = 32 \<and> ''CRm'' \<in> set (bit_fields hint)
   \<and> has_crm (operands_of 0xD50323BF (bit_fields hint))
   \<and> crm_value (operands_of 0xD50323BF (bit_fields hint)) = 3
   \<and> ''op2'' \<in> set (bit_fields hint)
   \<and> has_op2 (operands_of 0xD50323BF (bit_fields hint))
   \<and> op2_value (operands_of 0xD50323BF (bit_fields hint)) = 5
   \<and> length offset_labels = 32 \<and> ''simm'' \<in> set offset_labels
   \<and> imm_values (operands_of 0x00003022 offset_labels) ''offs'' = Some 3
   \<and> build_assembly ''MOVX <Xd>, #<imm>'' 0x000000A5 split_labels = Some ''MOVX x5, #0x5''"
proof -
  have h1: "length split_labels = 32" by (simp add: split_labels_def)
  have h2: "''imm'' \<in> set split_labels" by (simp add: split_labels_def)
  have h3: "''imm'' \<noteq> ''0''" "''imm'' \<noteq> ''1''" by simp_all
  have h4: "''Rd'' \<in> set split_labels" by (simp add: split_labels_def)
  have h5: "''Rd'' \<noteq> ''0''" "''Rd'' \<noteq> ''1''" by simp_all
  have h6: "length add_imm_labels = 32" by (simp add: add_imm_labels_def)
  have h7: "''sh'' \<in> set add_imm_labels" by (simp add: add_imm_labels_def)
  have h8: "''sh'' \<noteq> ''0''" "''sh'' \<noteq> ''1''" by simp_all
  have h9: "length (bit_fields hint) = 32" by (simp add: hint_def)
  have h10: "''CRm'' \<in> set (bit_fields hint)" by (simp add: hint_def)
  have h11: "''CRm'' \<noteq> ''0''" "''CRm'' \<noteq> ''1''" by simp_all
  note t1 = field_values_reconstructed [OF h1 h2 h3, of "0x40000025"]
  note t2 = field_values_reconstructed [OF h1 h4 h5, of "0x40000025"]
  note t3 = field_values_reconstructed [OF h6 h7 h8, of "0x914007FF"]
  note t4 = field_values_reconstructed [OF h9 h10 h11, of "0xD50323BF"]
  have e1: "bit_positions split_labels ''imm'' =
         [30, 29, 23, 22, 21, 20, 19, 18, 17, 16, 15, 14, 13, 12, 11, 10, 9, 8, 7, 6, 5]"
    by code_simp
  have e2: "field_value 0x40000025 (bit_positions split_labels ''imm'') = 0x100001" by code_simp
  have e3: "field_value 0x40000025 (bit_positions split_labels ''Rd'') = 5" by code_simp
  have e4: "field_value 0x914007FF (bit_positions add_imm_labels ''sh'') = 1" by code_simp
  have e5: "field_value 0xD50323BF (bit_positions (bit_fields hint) ''CRm'') = 3" by code_simp
  have last_imm: "take 3 ''imm'' = ''imm'' \<and> (\<forall>g\<in>set split_labels. take 3 g = ''imm'' \<longrightarrow> g \<le> ''imm'')"
    by (simp add: split_labels_def)
  have a: "map_of (collect_field_bits split_labels) ''imm'' =
         Some [30, 29, 23, 22, 21, 20, 19, 18, 17, 16, 15, 14, 13, 12, 11, 10, 9, 8, 7, 6, 5]"
    using t1 [THEN conjunct1] by (simp only: e1)
  have b: "imm_values (operands_of 0x40000025 split_labels) ''imm'' = Some 0x100001"
    using t1 [THEN conjunct2, THEN conjunct2, THEN conjunct2, THEN conjunct2, THEN conjunct2,
        THEN conjunct2, THEN conjunct2, THEN conjunct2, THEN conjunct1, rule_format, OF last_imm]
    by (simp only: e2)
  have c: "reg_values (operands_of 0x40000025 split_labels) ''Rd'' = Some 5"
    using t2 [THEN conjunct2, THEN conjunct2, THEN conjunct2, THEN conjunct2, THEN conjunct1]
    by (simp add: e3)
  have d: "has_shift (operands_of 0x914007FF add_imm_labels)
           \<and> shift_value (operands_of 0x914007FF add_imm_labels) = 1"
    using t3 [THEN conjunct2, THEN conjunct2, THEN conjunct2, THEN conjunct2, THEN conjunct2,
        THEN conjunct1]
    by (simp add: e4)
  have e: "has_crm (operands_of 0xD50323BF (bit_fields hint))
           \<and> crm_value (operands_of 0xD50323BF (bit_fields hint)) = 3"
    using t4 [THEN conjunct2, THEN conjunct2, THEN conjunct2, THEN conjunct2, THEN conjunct2,
        THEN conjunct2, THEN conjunct1]
    by (simp add: e5)
  have h12: "length offset_labels = 32" by (simp add: offset_labels_def)
  have h13: "''simm'' \<in> set offset_labels" by (simp add: offset_labels_def)
  have h14: "''simm'' \<noteq> ''0''" "''simm'' \<noteq> ''1''" by simp_all
  have h15: "''op2'' \<in> set (bit_fields hint)" by (simp add: hint_def)
  have h16: "''op2'' \<noteq> ''0''" "''op2'' \<noteq> ''1''" by simp_all
  note t5 = field_values_reconstructed [OF h12 h13 h14, of "0x00003022"]
  note t6 = field_values_reconstructed [OF h9 h15 h16, of "0xD50323BF"]
  have e6: "field_value 0x00003022 (bit_positions offset_labels ''simm'') = 3" by code_simp
  have e7: "field_value 0xD50323BF (bit_positions (bit_fields hint) ''op2'') = 5" by code_simp
  have last_offs: "(take 3 ''simm'' = ''off'' \<or> ''simm'' = ''simm'')
      \<and> (\<forall>g\<in>set offset_labels. take 3 g = ''off'' \<or> g = ''simm'' \<longrightarrow> g \<le> ''simm'')"
    by (simp add: offset_labels_def)
  have f: "imm_values (operands_of 0x00003022 offset_labels) ''offs'' = Some 3"
    using t5 [THEN conjunct2, THEN conjunct2, THEN conjunct2, THEN conjunct2, THEN conjunct2,
        THEN conjunct2, THEN conjunct2, THEN conjunct2, THEN conjunct2, rule_format, OF last_offs]
    by (simp only: e6)
  have g: "has_op2 (operands_of 0xD50323BF (bit_fields hint))
           \<and> op2_value (operands_of 0xD50323BF (bit_fields hint)) = 5"
    using t6 [THEN conjunct2, THEN conjunct2, THEN conjunct2, THEN conjunct2, THEN conjunct2,
        THEN conjunct2, THEN conjunct2, THEN conjunct1]
    by (simp add: e7)
  have r: "build_assembly ''MOVX <Xd>, #<imm>'' 0x000000A5 split_labels = Some ''MOVX x5, #0x5''"
    by code_simp
  show ?thesis
    using h1 h2 h3 h4 h5 h6 h7 h9 h10 h12 h13 h15 a b c d e f g r by blast
qed

theorem decoder_emits_every_match_witness:
  "(\<exists>lines.
     map (\<lambda>enc. build_assembly (asm_template enc) 0x00010000 (bit_fields enc))
       (filter (\<lambda>enc. 0x00010000 AND fixed_mask enc = fixed_bits enc) (concat example_encodings))
     = map Some lines
     \<and> query_by_opcode example_encodings 0x00010000 =
         Some (concat (map (\<lambda>line. line @ [CHR 0x0A]) lines),
               if lines = []
               then ''No matching instruction found for opcode: 0x'' @ hex8 0x00010000 @ [CHR 0x0A]
               else [])
     \<and> length (hex8 0x00010000) = 8
     \<and> set (hex8 0x00010000) \<subseteq> set ''0123456789abcdef''
     \<and> digits_value 16 (hex8 0x00010000) = unat (0x00010000 :: u32))
   \<and> query_by_opcode example_encodings 0x00010000 =
         Some ([], ''No matching instruction found for opcode: 0x00010000'' @ [CHR 0x0A])
   \<and> query_by_opcode example_encodings 0x91000000 =
         Some (''ADD x0, x0, #0x0'' @ [CHR 0x0A] @ ''MOV x0, x0'' @ [CHR 0x0A], [])"
proof (intro conjI)
  show "\<exists>lines.
     map (\<lambda>enc. build_assembly (asm_template enc) 0x00010000 (bit_fields enc))
       (filter (\<lambda>enc. 0x00010000 AND fixed_mask enc = fixed_bits enc) (concat example_encodings))
     = map Some lines
     \<and> query_by_opcode example_encodings 0x00010000 =
         Some (concat (map (\<lambda>line. line @ [CHR 0x0A]) lines),
               if lines = []
               then ''No matching instruction found for opcode: 0x'' @ hex8 0x00010000 @ [CHR 0x0A]
               else [])
     \<and> length (hex8 0x00010000) = 8
     \<and> set (hex8 0x00010000) \<subseteq> set ''0123456789abcdef''
     \<and> digits_value 16 (hex8 0x00010000) = unat (0x00010000 :: u32)"
    by (rule decoder_emits_every_match)
  show "query_by_opcode example_encodings 0x00010000 =
         Some ([], ''No matching instruction found for opcode: 0x00010000'' @ [CHR 0x0A])"
    by (simp add: query_by_opcode_def example_encodings_def ENCODINGS_0_def ENCODINGS_1_def
          add_imm_def mov_sp_def hint_def no_match_message_def hex8_def to_hex_def digits_of.simps
          digit_char_def replicate_num endl_def)
  show "query_by_opcode example_encodings 0x91000000 =
         Some (''ADD x0, x0, #0x0'' @ [CHR 0x0A] @ ''MOV x0, x0'' @ [CHR 0x0A], [])"
    by code_simp
qed
subsection \<open>The register blocks on a template of pieces\<close>

lemma could_matchI:
  assumes "take (length pat) (s @ t) = pat"
  shows "could_match pat s"
proof -
  have "take (length pat) s @ take (length pat - length s) t = pat"
    using assms by simp
  then have "take (length (take (length pat) s)) pat = take (length pat) s"
    by (metis append_eq_conv_conj)
  then show ?thesis
    by (simp add: could_match_def min.commute)
qed

lemma no_match_inside_drop:
  "no_match_inside pat s \<Longrightarrow> k < length s \<Longrightarrow> take (length pat) (drop k s @ t) \<noteq> pat"
proof (induction s arbitrary: k)
  case Nil
  then show ?case by simp
next
  case (Cons c s)
  show ?case
  proof (cases k)
    case 0
    then show ?thesis using Cons.prems(1) could_matchI [of pat "c # s" t] by auto
  next
    case (Suc j)
    then show ?thesis using Cons.IH [of j] Cons.prems by simp
  qed
qed

lemma no_match_inside_table:
  "\<forall>pat\<in>set register_placeholders.
     \<forall>p\<in>set register_placeholders. p \<noteq> pat \<longrightarrow> no_match_inside pat p"
  by code_simp

lemma register_placeholder_chars_table:
  "list_all (\<lambda>pat. pat \<noteq> [] \<and> list_all (\<lambda>c. c \<in> set placeholder_chars) pat)
     register_placeholders"
  by code_simp

lemma register_placeholder_chars:
  "pat \<in> set register_placeholders \<Longrightarrow> pat \<noteq> [] \<and> set pat \<subseteq> set placeholder_chars"
  using register_placeholder_chars_table by (auto simp: list_all_iff)

lemma template_of_simps [simp]:
  "template_of [] = []"
  "template_of (sg # segs) = seg_text sg @ template_of segs"
  "template_of (xs @ ys) = template_of xs @ template_of ys"
  by (simp_all add: template_of_def)

lemma str_find_skip:
  "\<forall>k<length s. take (length pat) (drop k s @ t) \<noteq> pat \<Longrightarrow>
   str_find pat (s @ t) = map_option (\<lambda>i. length s + i) (str_find pat t)"
proof (induction s)
  case Nil
  then show ?case by (simp add: option.map_ident)
next
  case (Cons c s)
  have "take (length pat) ((c # s) @ t) \<noteq> pat"
    using Cons.prems [rule_format, of 0] by simp
  then have 1: "str_find pat ((c # s) @ t) = map_option Suc (str_find pat (s @ t))" by simp
  have "\<forall>k<length s. take (length pat) (drop k s @ t) \<noteq> pat"
  proof (intro allI impI)
    fix k assume "k < length s"
    then have "Suc k < length (c # s)" by simp
    from Cons.prems [rule_format, OF this] show "take (length pat) (drop k s @ t) \<noteq> pat" by simp
  qed
  from Cons.IH [OF this] show ?case
    unfolding 1 by (simp add: option.map_comp comp_def)
qed

lemma str_find_here: "pat \<noteq> [] \<Longrightarrow> str_find pat (pat @ t) = Some 0"
  by (cases pat) simp_all

text \<open>A piece other than the placeholder looked for is passed over by the search.\<close>

lemma seg_quiet:
  assumes "pat \<in> set register_placeholders" "tight (sg # segs)" "sg \<noteq> Placeholder pat"
    and "k < length (seg_text sg)"
  shows "take (length pat) (drop k (seg_text sg) @ template_of segs) \<noteq> pat"
proof (cases sg)
  case (Text s)
  then show ?thesis using assms by simp
next
  case (Placeholder p)
  then have "p \<in> set register_placeholders" "p \<noteq> pat" using assms by simp_all
  then have "no_match_inside pat p" using no_match_inside_table assms(1) by blast
  then show ?thesis using no_match_inside_drop assms(4) Placeholder by simp
qed

lemma tight_append: "tight (xs @ ys) \<Longrightarrow> tight ys"
proof (induction xs)
  case Nil
  then show ?case by simp
next
  case (Cons sg xs)
  then show ?case by (cases sg) simp_all
qed

lemma tight_skip:
  assumes "pat \<in> set register_placeholders"
  shows "tight (done @ rest) \<Longrightarrow> Placeholder pat \<notin> set done \<Longrightarrow>
         str_find pat (template_of done @ template_of rest) =
           map_option (\<lambda>i. length (template_of done) + i) (str_find pat (template_of rest))"
proof (induction "done")
  case Nil
  then show ?case by (simp add: option.map_ident)
next
  case (Cons sg dn)
  have t: "tight (sg # (dn @ rest))" using Cons.prems(1) by simp
  then have t': "tight (dn @ rest)" by (cases sg) simp_all
  have ne: "sg \<noteq> Placeholder pat" "Placeholder pat \<notin> set dn" using Cons.prems(2) by auto
  have "\<forall>k<length (seg_text sg).
          take (length pat) (drop k (seg_text sg) @ template_of (dn @ rest)) \<noteq> pat"
    using seg_quiet [OF assms t ne(1)] by blast
  from str_find_skip [OF this]
  have "str_find pat (seg_text sg @ template_of (dn @ rest)) =
          map_option (\<lambda>i. length (seg_text sg) + i) (str_find pat (template_of (dn @ rest)))" .
  then show ?case
    using Cons.IH [OF t' ne(2)] by (simp add: option.map_comp comp_def add.assoc)
qed

text \<open>A plain text keeps every placeholder from beginning in it or reaching across it.\<close>

lemma plain_blocks:
  assumes "plain rep" "q \<noteq> []" "set q \<subseteq> set placeholder_chars"
    and "take (length q) (x @ rep @ y) = q"
  shows "length q \<le> length x"
proof (rule ccontr)
  assume "\<not> length q \<le> length x"
  then have lt: "length x < length q" by simp
  obtain c where c: "c = hd rep" by simp
  have "rep \<noteq> []" using assms(1) by (simp add: plain_def)
  then have "c \<in> set rep" using c by simp
  then have rep: "rep \<noteq> []" "c \<notin> set placeholder_chars"
    using assms(1) by (auto simp: plain_def)
  have "(x @ rep @ y) ! length x = c"
    using rep(1) c by (simp add: nth_append hd_conv_nth)
  moreover have "q ! length x = (x @ rep @ y) ! length x"
    using assms(4) lt by (metis nth_take)
  ultimately have "c \<in> set q" using lt by (metis nth_mem)
  then show False using rep(2) assms(3) by blast
qed

lemma plain_passes:
  assumes "plain rep" "q \<noteq> []" "set q \<subseteq> set placeholder_chars"
    and "take (length q) (x @ rep @ y) = q"
  shows "take (length q) (x @ z) = q"
  using plain_blocks [OF assms] assms(4) by simp

lemma tight_replace_one:
  assumes "plain rep"
  shows "tight (A @ Placeholder p # B) \<Longrightarrow> tight (A @ Text rep # B)"
proof (induction A)
  case Nil
  have "take (length pat) (drop k rep @ template_of B) \<noteq> pat"
    if "pat \<in> set register_placeholders" "k < length rep" for pat k
  proof
    assume m: "take (length pat) (drop k rep @ template_of B) = pat"
    have pl: "plain (drop k rep)"
      using assms that(2) by (auto simp: plain_def dest: in_set_dropD)
    have "take (length pat) ([] @ drop k rep @ template_of B) = pat" using m by simp
    from plain_blocks [OF pl _ _ this] register_placeholder_chars [OF that(1)]
    show False by simp
  qed
  then show ?case using Nil assms by (simp add: plain_def)
next
  case (Cons sg A)
  show ?case
  proof (cases sg)
    case (Placeholder q)
    then show ?thesis using Cons by simp
  next
    case (Text s)
    have t: "tight (A @ Text rep # B)" using Cons Text by simp
    have "take (length pat) (drop k s @ template_of (A @ Text rep # B)) \<noteq> pat"
      if "pat \<in> set register_placeholders" "k < length s" for pat k
    proof
      assume "take (length pat) (drop k s @ template_of (A @ Text rep # B)) = pat"
      then have "take (length pat) ((drop k s @ template_of A) @ rep @ template_of B) = pat"
        by simp
      from plain_passes [OF assms _ _ this, of "p @ template_of B"]
        register_placeholder_chars [OF that(1)]
      have "take (length pat) (drop k s @ template_of (A @ Placeholder p # B)) = pat" by simp
      then show False using Cons.prems Text that by simp
    qed
    then show ?thesis using Cons.prems Text t by simp
  qed
qed

lemma subst_seg_simps [simp]:
  "subst_seg pat rep (Text s) = Text s"
  "subst_seg pat rep (Placeholder p) = (if p = pat then Text rep else Placeholder p)"
  by (simp_all add: subst_seg_def)

lemma subst_seg_absent:
  "Placeholder pat \<notin> set segs \<Longrightarrow> map (subst_seg pat rep) segs = segs"
  by (induction segs) (auto simp: subst_seg_def)

text \<open>
  One replacement loop on a tight template ends, and has replaced every piece that is the
  placeholder looked for, and nothing else.
\<close>

lemma replace_all_tight:
  assumes pat: "pat \<in> set register_placeholders" and rep: "plain rep"
  shows "tight segs \<Longrightarrow>
         replace_all pat (length pat) rep (template_of segs) =
           Some (template_of (map (subst_seg pat rep) segs))
         \<and> tight (map (subst_seg pat rep) segs)"
proof (induction "length (filter (\<lambda>sg. sg = Placeholder pat) segs)" arbitrary: segs)
  case 0
  then have absent: "Placeholder pat \<notin> set segs"
    by (auto simp: filter_empty_conv)
  have "str_find pat (template_of segs @ template_of []) = None"
    using tight_skip [OF pat, of segs "[]"] 0(2) absent register_placeholder_chars [OF pat]
    by simp
  then have "replace_all pat (length pat) rep (template_of segs) = Some (template_of segs)"
    by (subst replace_all.simps) simp
  then show ?case
    using 0(2) by (simp add: subst_seg_absent [OF absent])
next
  case (Suc n)
  then have "filter (\<lambda>sg. sg = Placeholder pat) segs \<noteq> []" by auto
  then have "Placeholder pat \<in> set segs" by (auto simp: filter_empty_conv)
  then obtain A B where split: "segs = A @ Placeholder pat # B" "Placeholder pat \<notin> set A"
    by (meson split_list_first)
  let ?next = "A @ Text rep # B"
  have "str_find pat (template_of A @ template_of (Placeholder pat # B)) =
          Some (length (template_of A))"
    using tight_skip [OF pat, of A "Placeholder pat # B"] Suc.prems split
      str_find_here register_placeholder_chars [OF pat] by simp
  then have find: "str_find pat (template_of segs) = Some (length (template_of A))"
    using split(1) by simp
  have "str_replace (template_of segs) (length (template_of A)) (length pat) rep =
          template_of ?next"
    using split(1) by (simp add: str_replace_def)
  then have step: "replace_all pat (length pat) rep (template_of segs) =
          replace_all pat (length pat) rep (template_of ?next)"
    using find by (subst replace_all.simps) simp
  have t: "tight ?next"
    using tight_replace_one [OF rep] Suc.prems split(1) by simp
  have n: "n = length (filter (\<lambda>sg. sg = Placeholder pat) ?next)"
    using Suc(2) split by simp
  have same: "map (subst_seg pat rep) ?next = map (subst_seg pat rep) segs"
    using split(1) by simp
  from Suc(1) [OF n t] show ?case
    unfolding step same .
qed

text \<open>The texts of the registers are plain.\<close>

lemma decimal_digit_char: "d < 10 \<Longrightarrow> digit_char d \<in> set ''0123456789''"
proof -
  assume "d < 10"
  then have "d = 0 \<or> d = 1 \<or> d = 2 \<or> d = 3 \<or> d = 4 \<or> d = 5 \<or> d = 6 \<or> d = 7 \<or> d = 8 \<or> d = 9"
    by arith
  then show ?thesis
    unfolding digit_char_def by (elim disjE; simp)
qed

lemma decimal_digits_of:
  "b = 10 \<Longrightarrow> set (digits_of b n) \<subseteq> set ''0123456789''"
proof (induction b n rule: digits_of.induct)
  case (1 b n)
  show ?case
  proof (cases "n < b")
    case True
    then have "digits_of b n = [digit_char n]" by (subst digits_of.simps) simp
    moreover have "digit_char n \<in> set ''0123456789''"
      using True "1.prems" by (intro decimal_digit_char) simp
    ultimately show ?thesis by simp
  next
    case False
    then have eq: "digits_of b n = digits_of b (n div b) @ [digit_char (n mod b)]"
      using "1.prems" by (subst digits_of.simps) simp
    have "n mod b < 10" using "1.prems" by simp
    then have "digit_char (n mod b) \<in> set ''0123456789''" by (rule decimal_digit_char)
    moreover have "set (digits_of b (n div b)) \<subseteq> set ''0123456789''"
      using "1.IH" False "1.prems" by simp
    ultimately show ?thesis unfolding eq by simp
  qed
qed

lemma register_text_chars_table:
  "list_all (\<lambda>c. c \<notin> set placeholder_chars) ''0123456789spxw''"
  by code_simp

lemma plainI:
  assumes "rep \<noteq> []" "set rep \<subseteq> set ''0123456789spxw''"
  shows "plain rep"
  using assms register_text_chars_table unfolding plain_def list_all_iff by blast

lemma numbered_register_plain:
  assumes "c \<in> set ''spxw''"
  shows "plain (c # to_string n)"
proof (rule plainI)
  show "c # to_string n \<noteq> []" by simp
  have "set (to_string n) \<subseteq> set ''0123456789''"
    unfolding to_string_def by (rule decimal_digits_of) simp
  moreover have "set ''0123456789'' \<subseteq> set (''0123456789'' @ ''spxw'')"
    unfolding set_append by (rule Un_upper1)
  moreover have "c \<in> set (''0123456789'' @ ''spxw'')"
    unfolding set_append using assms by (rule UnI2)
  ultimately have "set (c # to_string n) \<subseteq> set (''0123456789'' @ ''spxw'')"
    by (simp only: list.set insert_subset) blast
  then show "set (c # to_string n) \<subseteq> set ''0123456789spxw''" by simp
qed

lemma register_texts_plain:
  "plain (sp_or_x r)" "plain (wsp_or_w r)" "plain (x_reg r)" "plain (w_reg r)"
proof -
  have sp: "plain ''sp''" "plain ''wsp''" by (rule plainI; simp)+
  have x: "plain (''x'' @ to_string n)" for n
    using numbered_register_plain [of "CHR ''x''" n] by simp
  have w: "plain (''w'' @ to_string n)" for n
    using numbered_register_plain [of "CHR ''w''" n] by simp
  show "plain (sp_or_x r)" "plain (wsp_or_w r)" "plain (x_reg r)" "plain (w_reg r)"
    using sp x w by (simp_all add: sp_or_x_def wsp_or_w_def x_reg_def w_reg_def)
qed

lemma in_register_placeholders:
  "''<Xd|SP>'' \<in> set register_placeholders" "''<Xd>'' \<in> set register_placeholders"
  "''<Wd|WSP>'' \<in> set register_placeholders" "''<Wd>'' \<in> set register_placeholders"
  "''<Wt>'' \<in> set register_placeholders" "''<Xn|SP>'' \<in> set register_placeholders"
  "''<Xn>'' \<in> set register_placeholders" "''<Wn|WSP>'' \<in> set register_placeholders"
  "''<Wn>'' \<in> set register_placeholders" "''<Xm>'' \<in> set register_placeholders"
  "''<R><m>'' \<in> set register_placeholders" "''<Wm>'' \<in> set register_placeholders"
  "''<Xt>'' \<in> set register_placeholders"
  by (simp_all add: register_placeholders_def)

lemma step_segs:
  assumes "pat \<in> set register_placeholders" "plain rep" "n = length pat" "tight segs"
  shows "replace_all pat n rep (template_of segs) = Some (template_of (map (subst_seg pat rep) segs))
         \<and> tight (map (subst_seg pat rep) segs)"
  using replace_all_tight [OF assms(1,2,4)] assms(3) by simp

lemma replace_rd_segs:
  assumes "tight segs"
  shows "replace_rd st (template_of segs) = Some (template_of (map (rd_seg st) segs))
         \<and> tight (map (rd_seg st) segs)"
proof (cases "reg_values st ''Rd''")
  case None
  then have "rd_seg st = id" by (simp add: fun_eq_iff rd_seg_def)
  then show ?thesis using None assms by (simp add: replace_rd_def)
next
  case (Some rd)
  note s1 = step_segs [OF in_register_placeholders(1) register_texts_plain(1) _ assms,
      of 7 rd, simplified]
  note s2 = step_segs [OF in_register_placeholders(2) register_texts_plain(1) _ s1 [THEN conjunct2],
      of 4 rd, simplified]
  note s3 = step_segs [OF in_register_placeholders(3) register_texts_plain(2) _ s2 [THEN conjunct2],
      of 8 rd, simplified]
  note s4 = step_segs [OF in_register_placeholders(4) register_texts_plain(2) _ s3 [THEN conjunct2],
      of 4 rd, simplified]
  note s5 = step_segs [OF in_register_placeholders(5) register_texts_plain(2) _ s4 [THEN conjunct2],
      of 4 rd, simplified]
  have e: "rd_seg st = (\<lambda>sg. subst_seg ''<Wt>'' (wsp_or_w rd) (subst_seg ''<Wd>'' (wsp_or_w rd)
            (subst_seg ''<Wd|WSP>'' (wsp_or_w rd) (subst_seg ''<Xd>'' (sp_or_x rd)
              (subst_seg ''<Xd|SP>'' (sp_or_x rd) sg)))))"
    using Some by (simp add: fun_eq_iff rd_seg_def)
  show ?thesis
    using s1 s2 s3 s4 s5 Some by (simp add: replace_rd_def e comp_def)
qed

lemma replace_rn_segs:
  assumes "tight segs"
  shows "replace_rn st (template_of segs) = Some (template_of (map (rn_seg st) segs))
         \<and> tight (map (rn_seg st) segs)"
proof (cases "reg_values st ''Rn''")
  case None
  then have "rn_seg st = id" by (simp add: fun_eq_iff rn_seg_def)
  then show ?thesis using None assms by (simp add: replace_rn_def)
next
  case (Some rn)
  note s1 = step_segs [OF in_register_placeholders(6) register_texts_plain(1) _ assms,
      of 7 rn, simplified]
  note s2 = step_segs [OF in_register_placeholders(7) register_texts_plain(1) _ s1 [THEN conjunct2],
      of 4 rn, simplified]
  note s3 = step_segs [OF in_register_placeholders(8) register_texts_plain(2) _ s2 [THEN conjunct2],
      of 8 rn, simplified]
  note s4 = step_segs [OF in_register_placeholders(9) register_texts_plain(2) _ s3 [THEN conjunct2],
      of 4 rn, simplified]
  have e: "rn_seg st = (\<lambda>sg. subst_seg ''<Wn>'' (wsp_or_w rn) (subst_seg ''<Wn|WSP>'' (wsp_or_w rn)
            (subst_seg ''<Xn>'' (sp_or_x rn) (subst_seg ''<Xn|SP>'' (sp_or_x rn) sg))))"
    using Some by (simp add: fun_eq_iff rn_seg_def)
  show ?thesis
    using s1 s2 s3 s4 Some by (simp add: replace_rn_def e comp_def)
qed

lemma replace_rm_segs:
  assumes "tight segs"
  shows "replace_rm st (template_of segs) = Some (template_of (map (rm_seg st) segs))
         \<and> tight (map (rm_seg st) segs)"
proof (cases "reg_values st ''Rm''")
  case None
  then have "rm_seg st = id" by (simp add: fun_eq_iff rm_seg_def)
  then show ?thesis using None assms by (simp add: replace_rm_def)
next
  case (Some rm)
  note s1 = step_segs [OF in_register_placeholders(10) register_texts_plain(3) _ assms,
      of 4 rm, simplified]
  note s2 = step_segs [OF in_register_placeholders(11) register_texts_plain(3) _ s1 [THEN conjunct2],
      of 6 rm, simplified]
  note s3 = step_segs [OF in_register_placeholders(12) register_texts_plain(4) _ s2 [THEN conjunct2],
      of 4 rm, simplified]
  have e: "rm_seg st = (\<lambda>sg. subst_seg ''<Wm>'' (w_reg rm) (subst_seg ''<R><m>'' (x_reg rm)
            (subst_seg ''<Xm>'' (x_reg rm) sg)))"
    using Some by (simp add: fun_eq_iff rm_seg_def)
  show ?thesis
    using s1 s2 s3 Some by (simp add: replace_rm_def e comp_def)
qed

lemma replace_rt_segs:
  assumes "tight segs"
  shows "replace_rt st (template_of segs) = Some (template_of (map (rt_seg st) segs))
         \<and> tight (map (rt_seg st) segs)"
proof (cases "reg_values st ''Rt''")
  case None
  then have "rt_seg st = id" by (simp add: fun_eq_iff rt_seg_def)
  then show ?thesis using None assms by (simp add: replace_rt_def)
next
  case (Some rt)
  note s1 = step_segs [OF in_register_placeholders(13) register_texts_plain(3) _ assms,
      of 4 rt, simplified]
  note s2 = step_segs [OF in_register_placeholders(5) register_texts_plain(4) _ s1 [THEN conjunct2],
      of 4 rt, simplified]
  have e: "rt_seg st = (\<lambda>sg. subst_seg ''<Wt>'' (w_reg rt) (subst_seg ''<Xt>'' (x_reg rt) sg))"
    using Some by (simp add: fun_eq_iff rt_seg_def)
  show ?thesis
    using s1 s2 Some by (simp add: replace_rt_def e comp_def)
qed

lemma replace_registers_segs:
  assumes "tight segs"
  shows "replace_registers st (template_of segs) =
           Some (template_of (map (rt_seg st \<circ> rm_seg st \<circ> rn_seg st \<circ> rd_seg st) segs))"
proof -
  note d = replace_rd_segs [OF assms, of st]
  note n = replace_rn_segs [OF d [THEN conjunct2], of st]
  note m = replace_rm_segs [OF n [THEN conjunct2], of st]
  note t = replace_rt_segs [OF m [THEN conjunct2], of st]
  show ?thesis
    using d n m t by (simp add: replace_registers_def comp_assoc)
qed

lemmas block_segs = rd_seg_def rn_seg_def rm_seg_def rt_seg_def

lemma blocks_on_text:
  "rt_seg st (rm_seg st (rn_seg st (rd_seg st (Text s)))) = Text s"
  by (simp add: block_segs split: option.splits)

lemmas register_forms = register_text_def sp_form_def plain_form_def sp_or_x_def wsp_or_w_def
  x_reg_def w_reg_def

lemma blocks_on_placeholder:
  assumes "p \<in> set register_placeholders"
  shows "rt_seg st (rm_seg st (rn_seg st (rd_seg st (Placeholder p)))) = render_seg st (Placeholder p)"
  using assms unfolding register_placeholders_def set_simps insert_iff empty_iff
  by (elim disjE; simp add: block_segs register_forms split: option.splits)

lemma tight_placeholders:
  "tight segs \<Longrightarrow> Placeholder p \<in> set segs \<Longrightarrow> p \<in> set register_placeholders"
proof (induction segs)
  case Nil
  then show ?case by simp
next
  case (Cons sg segs)
  then show ?case by (cases sg) auto
qed

lemma blocks_render:
  assumes "tight segs" "sg \<in> set segs"
  shows "(rt_seg st \<circ> rm_seg st \<circ> rn_seg st \<circ> rd_seg st) sg = render_seg st sg"
proof (cases sg)
  case (Text s)
  then show ?thesis by (simp add: blocks_on_text)
next
  case (Placeholder p)
  then have "p \<in> set register_placeholders" using tight_placeholders assms by blast
  then show ?thesis using Placeholder by (simp add: blocks_on_placeholder)
qed

text \<open>The pieces of a template make up the template, and are tight.\<close>

lemma pieces_from_drop: "pieces_from k s = pieces_from 0 (drop k s)"
proof (induction s arbitrary: k)
  case Nil
  show ?case by simp
next
  case (Cons c s)
  show ?case
  proof (cases k)
    case 0
    then show ?thesis by simp
  next
    case (Suc j)
    then show ?thesis using Cons.IH [of j] by simp
  qed
qed

lemma pieces_placeholder:
  assumes "find (\<lambda>p. take (length p) (c # s) = p) register_placeholders = Some p"
  shows "pieces (c # s) = Placeholder p # pieces (drop (length p) (c # s))"
    and "p \<in> set register_placeholders" and "take (length p) (c # s) = p" and "p \<noteq> []"
proof -
  from assms show p: "p \<in> set register_placeholders" and t: "take (length p) (c # s) = p"
    by (auto simp: find_Some_iff)
  from register_placeholder_chars [OF p] show ne: "p \<noteq> []" by simp
  then have "drop (length p) (c # s) = drop (length p - 1) s"
    by (simp add: drop_Cons')
  then show "pieces (c # s) = Placeholder p # pieces (drop (length p) (c # s))"
    using assms pieces_from_drop [of "length p - 1" s] by (simp add: pieces_def)
qed

lemma pieces_text:
  assumes "find (\<lambda>p. take (length p) (c # s) = p) register_placeholders = None"
  shows "pieces (c # s) = Text [c] # pieces s"
    and "\<forall>p\<in>set register_placeholders. take (length p) (c # s) \<noteq> p"
proof -
  show "pieces (c # s) = Text [c] # pieces s"
    using assms by (simp add: pieces_def)
  show "\<forall>p\<in>set register_placeholders. take (length p) (c # s) \<noteq> p"
    using assms by (simp add: find_None_iff)
qed

lemma pieces_props: "template_of (pieces t) = t \<and> tight (pieces t)"
proof (induction t rule: length_induct)
  case (1 t)
  show ?case
  proof (cases t)
    case Nil
    then show ?thesis by (simp add: pieces_def)
  next
    case (Cons c s)
    show ?thesis
    proof (cases "find (\<lambda>p. take (length p) (c # s) = p) register_placeholders")
      case None
      have ih: "template_of (pieces s) = s" "tight (pieces s)"
        using 1 Cons by simp_all
      show ?thesis
        unfolding Cons pieces_text(1) [OF None]
        using pieces_text(2) [OF None] ih by simp
    next
      case (Some p)
      note ph = pieces_placeholder [OF Some]
      have "length (drop (length p) (c # s)) < length t"
        using ph(4) Cons by simp
      then have ih: "template_of (pieces (drop (length p) (c # s))) = drop (length p) (c # s)"
          "tight (pieces (drop (length p) (c # s)))"
        using 1 by blast+
      have "p @ drop (length p) (c # s) = c # s"
        using ph(3) append_take_drop_id [of "length p" "c # s"] by simp
      then show ?thesis
        unfolding Cons ph(1) using ih ph(2) by simp
    qed
  qed
qed

lemma replace_registers_pieces:
  "replace_registers st tmpl = Some (template_of (map (render_seg st) (pieces tmpl)))"
proof -
  have t: "tight (pieces tmpl)" using pieces_props by simp
  have m: "map (rt_seg st \<circ> rm_seg st \<circ> rn_seg st \<circ> rd_seg st) (pieces tmpl) =
          map (render_seg st) (pieces tmpl)"
    by (intro map_cong refl blocks_render [OF t])
  have "replace_registers st (template_of (pieces tmpl)) =
          Some (template_of (map (render_seg st) (pieces tmpl)))"
    using replace_registers_segs [OF t, of st] unfolding m .
  then show ?thesis
    unfolding pieces_props [THEN conjunct1] .
qed

text \<open>Every place where a register placeholder occurs in the template is a piece.\<close>

lemma no_self_overlap_table:
  "\<forall>p\<in>set register_placeholders. no_match_inside p (tl p)"
  by code_simp

lemma tight_occurrence:
  assumes p: "p \<in> set register_placeholders"
  shows "tight segs \<Longrightarrow> take (length p) (drop i (template_of segs)) = p \<Longrightarrow>
         \<exists>A B. segs = A @ Placeholder p # B \<and> length (template_of A) = i"
proof (induction segs arbitrary: i)
  case Nil
  then show ?case using register_placeholder_chars [OF p] by simp
next
  case (Cons sg segs)
  let ?n = "length (seg_text sg)"
  show ?case
  proof (cases "i < ?n")
    case True
    then have m: "take (length p) (drop i (seg_text sg) @ template_of segs) = p"
      using Cons.prems(2) by simp
    have sg: "sg = Placeholder p"
      using seg_quiet [OF p Cons.prems(1) _ True] m by blast
    have "i = 0"
    proof (rule ccontr)
      assume "i \<noteq> 0"
      then have k: "i - 1 < length (tl p)" "drop (i - 1) (tl p) = drop i p"
        using True sg by (simp_all add: drop_Suc [symmetric])
      have "no_match_inside p (tl p)" using no_self_overlap_table p by blast
      from no_match_inside_drop [OF this k(1), of "template_of segs"]
      have "take (length p) (drop i p @ template_of segs) \<noteq> p"
        unfolding k(2) .
      moreover have "take (length p) (drop i p @ template_of segs) = p"
        using m unfolding sg by (simp only: seg_text.simps)
      ultimately show False by (rule notE)
    qed
    then have "sg # segs = [] @ Placeholder p # segs \<and> length (template_of []) = i"
      using sg by simp
    then show ?thesis by blast
  next
    case False
    then have "take (length p) (drop (i - ?n) (template_of segs)) = p"
      using Cons.prems(2) by simp
    moreover have "tight segs" using Cons.prems(1) by (cases sg) simp_all
    ultimately obtain A B where "segs = A @ Placeholder p # B" "length (template_of A) = i - ?n"
      using Cons.IH by blast
    then have "sg # segs = (sg # A) @ Placeholder p # B \<and> length (template_of (sg # A)) = i"
      using False by simp
    then show ?thesis by blast
  qed
qed

text \<open>
  C9, as amended. For every template, read from left to right as pieces (so that every
  place where a register placeholder occurs is a piece, and the pieces together are the
  template), the register blocks replace every register placeholder by its text and keep
  everything else, the other placeholders too: the placeholders of Rd and Rn show index 31
  as \<open>sp\<close> or \<open>wsp\<close> and any other index as a numbered register; \<open><Xm>\<close>, \<open><R><m>\<close>,
  \<open><Wm>\<close> and \<open><Xt>\<close> show every index, 31 too, as a numbered register; \<open><Wt>\<close> is shown
  from Rd (with \<open>wsp\<close> at 31) when there is an Rd field and from Rt as a numbered register
  otherwise; a placeholder whose field is absent stays. The later stages then work on that
  text.
\<close>

theorem register_placeholders_rendered:
  "build_assembly tmpl opcode bf =
     finish (operands_of opcode bf)
       (template_of (map (render_seg (operands_of opcode bf)) (pieces tmpl)))
   \<and> template_of (pieces tmpl) = tmpl
   \<and> (\<forall>p\<in>set register_placeholders. \<forall>i.
         take (length p) (drop i tmpl) = p \<longrightarrow>
         (\<exists>A B. pieces tmpl = A @ Placeholder p # B \<and> length (template_of A) = i))"
proof (intro conjI ballI allI impI)
  show "build_assembly tmpl opcode bf =
     finish (operands_of opcode bf)
       (template_of (map (render_seg (operands_of opcode bf)) (pieces tmpl)))"
    by (simp add: build_assembly_def replace_registers_pieces)
  show "template_of (pieces tmpl) = tmpl"
    using pieces_props by simp
  fix p i
  assume "p \<in> set register_placeholders" "take (length p) (drop i tmpl) = p"
  then show "\<exists>A B. pieces tmpl = A @ Placeholder p # B \<and> length (template_of A) = i"
    using tight_occurrence [of p "pieces tmpl" i] pieces_props [of tmpl] by simp
qed

theorem register_placeholders_rendered_witness:
  "''<Xn|SP>'' \<in> set register_placeholders
   \<and> take (length ''<Xn|SP>'') (drop 13 (asm_template add_imm)) = ''<Xn|SP>''
   \<and> (\<exists>A B. pieces (asm_template add_imm) = A @ Placeholder ''<Xn|SP>'' # B
          \<and> length (template_of A) = 13)
   \<and> build_assembly (asm_template add_imm) 0x910003FF (bit_fields add_imm) =
       finish (operands_of 0x910003FF (bit_fields add_imm))
         (template_of (map (render_seg (operands_of 0x910003FF (bit_fields add_imm)))
            (pieces (asm_template add_imm))))
   \<and> template_of (map (render_seg (operands_of 0x910003FF (bit_fields add_imm)))
        (pieces (asm_template add_imm))) = ''ADD sp, sp, #<imm>{, <shift>}''
   \<and> build_assembly (asm_template add_imm) 0x910003FF (bit_fields add_imm) = Some ''ADD sp, sp, #0x0''
   \<and> template_of (map (render_seg (operands_of 0xB400001F cbz_labels)) (pieces ''CBZ <Xt>, <label>'')) =
       ''CBZ x31, <label>''
   \<and> build_assembly ''CBZ <Xt>, <label>'' 0xB400001F cbz_labels = Some ''CBZ x31, <label>''
   \<and> template_of (map (render_seg (operands_of 0x8B1F03FF three_register_labels))
        (pieces ''MADD <Xd>, <Xn>, <Xm>, <Xa>'')) = ''MADD sp, sp, x31, <Xa>''
   \<and> build_assembly ''MADD <Xd>, <Xn>, <Xm>, <Xa>'' 0x8B1F03FF three_register_labels =
       Some ''MADD sp, sp, x31, <Xa>''"
proof -
  note th = register_placeholders_rendered [of "asm_template add_imm" "0x910003FF" "bit_fields add_imm"]
  have h1: "''<Xn|SP>'' \<in> set register_placeholders"
    by (simp add: register_placeholders_def)
  have h2: "take (length ''<Xn|SP>'') (drop 13 (asm_template add_imm)) = ''<Xn|SP>''"
    by (simp add: add_imm_def)
  have a: "\<exists>A B. pieces (asm_template add_imm) = A @ Placeholder ''<Xn|SP>'' # B
          \<and> length (template_of A) = 13"
    using th [THEN conjunct2, THEN conjunct2, rule_format, OF h1 h2] .
  have e1: "template_of (map (render_seg (operands_of 0x910003FF (bit_fields add_imm)))
        (pieces (asm_template add_imm))) = ''ADD sp, sp, #<imm>{, <shift>}''"
    by code_simp
  have e2: "build_assembly (asm_template add_imm) 0x910003FF (bit_fields add_imm) = Some ''ADD sp, sp, #0x0''"
    by code_simp
  have e3: "template_of (map (render_seg (operands_of 0xB400001F cbz_labels)) (pieces ''CBZ <Xt>, <label>'')) =
       ''CBZ x31, <label>''"
    by code_simp
  have e4: "build_assembly ''CBZ <Xt>, <label>'' 0xB400001F cbz_labels = Some ''CBZ x31, <label>''"
    by code_simp
  have e5: "template_of (map (render_seg (operands_of 0x8B1F03FF three_register_labels))
        (pieces ''MADD <Xd>, <Xn>, <Xm>, <Xa>'')) = ''MADD sp, sp, x31, <Xa>''"
    by code_simp
  have e6: "build_assembly ''MADD <Xd>, <Xn>, <Xm>, <Xa>'' 0x8B1F03FF three_register_labels =
       Some ''MADD sp, sp, x31, <Xa>''"
    by code_simp
  show ?thesis
    using h1 h2 a th [THEN conjunct1] e1 e2 e3 e4 e5 e6 by blast
qed

text \<open>
  With Rt = 3 and Rd = 31 the placeholder \<open><Wt>\<close> is shown as \<open>wsp\<close>, not as \<open>w3\<close>; with
  Rm = Rn = Rd = 31 the placeholder of Rm is shown as \<open>x31\<close> next to \<open>sp\<close> for the other two.
\<close>

theorem wt_rendered_from_rd_counterexample:
  "build_assembly ''LDR <Wt>'' 0x0000007F rt_rd_labels = Some ''LDR wsp''
   \<and> reg_values (operands_of 0x0000007F rt_rd_labels) ''Rt'' = Some 3
   \<and> reg_values (operands_of 0x0000007F rt_rd_labels) ''Rd'' = Some 31"
  by code_simp

lemma rm_not_special_cased:
  "build_assembly ''ADD <Xd>, <Xn>, <Xm>'' 0x8B1F03FF three_register_labels = Some ''ADD sp, sp, x31''"
  by code_simp


end
